theory Spec2Isabelle
  imports Main "HOL-Library.Word"
begin

unbundle bit_operations_syntax

section \<open>The WAD codec of wrench (src/formats/wad.cpp)\<close>

text \<open>
  Bytes are 8-bit words. Sizes and stream positions (\<open>size_t\<close> in the source) are natural
  numbers: every position the codec computes is bounded by the length of a buffer, so no
  64-bit wrap-around is reachable, except in the subtractions that are written out below.
  Every exception of the source, and every read outside a buffer, is a value of \<open>error\<close>.
\<close>

type_synonym u8 = "8 word"

datatype error =
    BadMagic
  | DoubleLiteral
  | TruncatedInput
  | BadLookback
  | InvalidParameter
  | OutOfBounds
  | LengthError
  | AssertionFailed

subsection \<open>The byte buffer\<close>

record array_stream =
  buffer :: "u8 list"
  pos :: nat

definition empty_stream :: array_stream where
  "empty_stream = \<lparr>buffer = [], pos = 0\<rparr>"

text \<open>
  Modelled from the spec: the class \<open>array_stream\<close> (stream.h) is not part of the
  sources at hand. The spec describes it as a growable, positioned byte array: read an octet
  and advance, peek an octet at an absolute offset, write an octet and advance, seek; the
  buffer grows on a write past its end, and a read past its end is the failure
  \<open>TruncatedInput\<close>.
\<close>

definition seek :: "array_stream \<Rightarrow> nat \<Rightarrow> array_stream" where
  "seek s off = s\<lparr>pos := off\<rparr>"

definition read8 :: "array_stream \<Rightarrow> error + (u8 \<times> array_stream)" where
  "read8 s =
     (if pos s < length (buffer s)
      then Inr (buffer s ! pos s, s\<lparr>pos := pos s + 1\<rparr>)
      else Inl TruncatedInput)"

definition peek8_at :: "array_stream \<Rightarrow> nat \<Rightarrow> error + u8" where
  "peek8_at s off =
     (if off < length (buffer s) then Inr (buffer s ! off) else Inl TruncatedInput)"

definition write8 :: "array_stream \<Rightarrow> u8 \<Rightarrow> array_stream" where
  "write8 s b =
     (let buf = buffer s @ replicate (pos s + 1 - length (buffer s)) 0
      in s\<lparr>buffer := buf[pos s := b], pos := pos s + 1\<rparr>)"

fun write_n :: "array_stream \<Rightarrow> u8 list \<Rightarrow> array_stream" where
  "write_n s [] = s"
| "write_n s (b # bs) = write_n (write8 s b) bs"

subsection \<open>Decompression\<close>

definition validate_wad :: "u8 list \<Rightarrow> bool" where
  "validate_wad magic = (take 3 magic = [0x57, 0x41, 0x44])"

text \<open>\<open>copy_bytes\<close>: the loop \<open>for(i = 0; i < bytes; i++) dest.write8(src.read8())\<close>.\<close>

fun copy_bytes :: "array_stream \<Rightarrow> array_stream \<Rightarrow> nat
    \<Rightarrow> error + (array_stream \<times> array_stream)" where
  "copy_bytes dest src 0 = Inr (dest, src)"
| "copy_bytes dest src (Suc n) =
     (case read8 src of
        Inl e \<Rightarrow> Inl e
      | Inr (b, src') \<Rightarrow> copy_bytes (write8 dest b) src' n)"

text \<open>
  The copy of a match: \<open>for(i = 0; i < bytes_to_copy; i++)
  dest.write8(dest.peek8(lookback_offset + i))\<close>. The offset is a \<open>size_t\<close> in the
  source; here it is an integer, and an offset below zero (which the source reaches by
  wrapping around to a value beyond every buffer) is the failure \<open>BadLookback\<close>, as is an
  offset at or beyond the end of the destination.
\<close>

fun copy_lookback :: "array_stream \<Rightarrow> int \<Rightarrow> nat \<Rightarrow> error + array_stream" where
  "copy_lookback dest off 0 = Inr dest"
| "copy_lookback dest off (Suc n) =
     (if 0 \<le> off \<and> nat off < length (buffer dest)
      then copy_lookback (write8 dest (buffer dest ! nat off)) (off + 1) n
      else Inl BadLookback)"

text \<open>The pad skip: \<open>while(src.pos % 0x1000 != 0x10) src.pos++\<close>.\<close>

lemma align_distance:
  fixes x m :: nat
  assumes "0x10 < m" and "x < m"
  shows "(m + 0x10 - x) mod m = (if x \<le> 0x10 then 0x10 - x else m + 0x10 - x)"
proof (cases "x \<le> 0x10")
  case True
  then have "m + 0x10 - x = (0x10 - x) + 1 * m" by simp
  then have "(m + 0x10 - x) mod m = (0x10 - x) mod m"
    by (simp only: mod_mult_self1)
  then show ?thesis using True assms by simp
next
  case False
  then show ?thesis using assms by simp
qed

lemma align_measure:
  fixes p m :: nat
  assumes m: "0x10 < m" and "p mod m \<noteq> 0x10"
  shows "(m + 0x10 - (p + 1) mod m) mod m < (m + 0x10 - p mod m) mod m"
proof -
  define r where "r = p mod m"
  have r: "r < m" "r \<noteq> 0x10" using assms by (simp_all add: r_def)
  have step: "(p + 1) mod m = (if r + 1 = m then 0 else r + 1)"
    unfolding r_def using mod_Suc [of p m] by auto
  have old: "(m + 0x10 - r) mod m = (if r \<le> 0x10 then 0x10 - r else m + 0x10 - r)"
    using m r(1) by (rule align_distance)
  show ?thesis
  proof (cases "r + 1 = m")
    case True
    then have "(m + 0x10 - (p + 1) mod m) mod m = 0x10 mod m" unfolding step by simp
    also have "\<dots> = 0x10" using m by simp
    also have "\<dots> < (m + 0x10 - r) mod m" unfolding old using True m r by auto
    finally show ?thesis unfolding r_def .
  next
    case False
    then have "r + 1 < m" using r by simp
    with m have new: "(m + 0x10 - (r + 1)) mod m
        = (if r + 1 \<le> 0x10 then 0x10 - (r + 1) else m + 0x10 - (r + 1))"
      by (rule align_distance)
    have "(m + 0x10 - (r + 1)) mod m < (m + 0x10 - r) mod m"
      unfolding new old using r False by (auto split: if_splits)
    then show ?thesis unfolding step r_def [symmetric] using False by simp
  qed
qed

function skip_pad :: "nat \<Rightarrow> nat" where
  "skip_pad p = (if p mod 0x1000 \<noteq> 0x10 then skip_pad (p + 1) else p)"
  by pat_completeness auto
termination
proof (relation "measure (\<lambda>p. (0x1000 + 0x10 - p mod 0x1000) mod 0x1000)")
  show "wf (measure (\<lambda>p::nat. (0x1000 + 0x10 - p mod 0x1000) mod 0x1000))"
    by simp
next
  fix p :: nat
  assume "p mod 0x1000 \<noteq> 0x10"
  then have "(0x1000 + 0x10 - (p + 1) mod 0x1000) mod 0x1000
      < (0x1000 + 0x10 - p mod 0x1000) mod (0x1000::nat)"
    by (intro align_measure) simp_all
  then show "(p + 1, p) \<in> measure (\<lambda>p. (0x1000 + 0x10 - p mod 0x1000) mod 0x1000)"
    by simp
qed

declare skip_pad.simps [simp del]

text \<open>
  The tail of a non-literal packet: the copy of the match (skipped when
  \<open>bytes_to_copy\<close> is 1) and the tiny literal, whose length is in the low two bits of
  the second-to-last byte read.
\<close>

definition finish_packet :: "array_stream \<Rightarrow> array_stream \<Rightarrow> int \<Rightarrow> nat
    \<Rightarrow> error + (array_stream \<times> array_stream)" where
  "finish_packet dest src lookback_offset bytes_to_copy =
     (case (if bytes_to_copy \<noteq> 1 then copy_lookback dest lookback_offset bytes_to_copy
            else Inr dest) of
        Inl e \<Rightarrow> Inl e
      | Inr dest' \<Rightarrow>
          (case peek8_at src (pos src - 2) of
             Inl e \<Rightarrow> Inl e
           | Inr b \<Rightarrow>
               (let snd_pos = unat (b AND 3)
                in if snd_pos \<noteq> 0 then copy_bytes dest' src snd_pos
                   else Inr (dest', src))))"

text \<open>The length field of the two big match families: in the flag, or in the next byte.\<close>

definition read_length :: "array_stream \<Rightarrow> u8 \<Rightarrow> u8 \<Rightarrow> nat
    \<Rightarrow> error + (nat \<times> array_stream)" where
  "read_length src flag_byte m extra =
     (if flag_byte AND m = 0
      then (case read8 src of
              Inl e \<Rightarrow> Inl e
            | Inr (x, src') \<Rightarrow> Inr (unat x + extra, src'))
      else Inr (unat (flag_byte AND m), src))"

definition read2 :: "array_stream \<Rightarrow> error + (u8 \<times> u8 \<times> array_stream)" where
  "read2 src =
     (case read8 src of
        Inl e \<Rightarrow> Inl e
      | Inr (b0, src') \<Rightarrow>
          (case read8 src' of
             Inl e \<Rightarrow> Inl e
           | Inr (b1, src'') \<Rightarrow> Inr (b0, b1, src'')))"

text \<open>The literal branch of the loop body (flag bytes 0x00 to 0x0f).\<close>

definition decode_literal :: "array_stream \<Rightarrow> array_stream \<Rightarrow> u8
    \<Rightarrow> error + (array_stream \<times> array_stream)" where
  "decode_literal dest src flag_byte =
     (case (if flag_byte \<noteq> 0 then Inr (unat flag_byte + 3, src)
            else (case read8 src of
                    Inl e \<Rightarrow> Inl e
                  | Inr (x, src') \<Rightarrow> Inr (unat x + 18, src'))) of
        Inl e \<Rightarrow> Inl e
      | Inr (num_bytes, src1) \<Rightarrow>
          (case copy_bytes dest src1 num_bytes of
             Inl e \<Rightarrow> Inl e
           | Inr (dest', src2) \<Rightarrow>
               if pos src2 < length (buffer src2) \<and> buffer src2 ! pos src2 < 0x10
               then Inl DoubleLiteral
               else Inr (dest', src2)))"

text \<open>
  The branch for flag bytes 0x10 to 0x1f. \<open>delta\<close> is the signed term added to
  \<open>dest.pos\<close>; the lookback equals \<open>dest.pos\<close> exactly when it is zero.
\<close>

definition lookback_delta_c :: "u8 \<Rightarrow> u8 \<Rightarrow> u8 \<Rightarrow> int" where
  "lookback_delta_c flag_byte b0 b1 =
     uint (flag_byte AND 8) * (- 0x800) - (uint (drop_bit 2 b0) + uint b1 * 0x40)"

definition decode_type_c :: "array_stream \<Rightarrow> array_stream \<Rightarrow> u8
    \<Rightarrow> error + (array_stream \<times> array_stream)" where
  "decode_type_c dest src flag_byte =
     (case read_length src flag_byte 7 7 of
        Inl e \<Rightarrow> Inl e
      | Inr (bytes_to_copy, src1) \<Rightarrow>
          (case read2 src1 of
             Inl e \<Rightarrow> Inl e
           | Inr (b0, b1, src2) \<Rightarrow>
               (let delta = lookback_delta_c flag_byte b0 b1
                in if delta \<noteq> 0
                   then finish_packet dest src2 (int (pos dest) + delta - 0x4000)
                          (bytes_to_copy + 2)
                   else if bytes_to_copy \<noteq> 1
                   then Inr (dest, src2\<lparr>pos := skip_pad (pos src2)\<rparr>)
                   else finish_packet dest src2 (int (pos dest)) bytes_to_copy)))"

text \<open>Big match packets (0x20 to 0x3f).\<close>

definition decode_big_match :: "array_stream \<Rightarrow> array_stream \<Rightarrow> u8
    \<Rightarrow> error + (array_stream \<times> array_stream)" where
  "decode_big_match dest src flag_byte =
     (case read_length src flag_byte 0x1f 0x1f of
        Inl e \<Rightarrow> Inl e
      | Inr (n, src1) \<Rightarrow>
          (case read2 src1 of
             Inl e \<Rightarrow> Inl e
           | Inr (b1, b2, src2) \<Rightarrow>
               finish_packet dest src2
                 (int (pos dest) - (uint (drop_bit 2 b1) + uint b2 * 0x40) - 1) (n + 2)))"

text \<open>Little match packets (0x40 to 0xff).\<close>

definition decode_little_match :: "array_stream \<Rightarrow> array_stream \<Rightarrow> u8
    \<Rightarrow> error + (array_stream \<times> array_stream)" where
  "decode_little_match dest src flag_byte =
     (case read8 src of
        Inl e \<Rightarrow> Inl e
      | Inr (b1, src1) \<Rightarrow>
          finish_packet dest src1
            (int (pos dest) - uint b1 * 8 - uint (drop_bit 2 flag_byte AND 7) - 1)
            (unat (drop_bit 5 flag_byte) + 1))"

text \<open>One iteration of the loop of \<open>decompress_wad_n\<close>: one packet.\<close>

definition decode_packet :: "array_stream \<times> array_stream
    \<Rightarrow> error + (array_stream \<times> array_stream)" where
  "decode_packet st =
     (case st of (dest, src) \<Rightarrow>
        (case read8 src of
           Inl e \<Rightarrow> Inl e
         | Inr (flag_byte, src1) \<Rightarrow>
             if flag_byte < 0x10 then decode_literal dest src1 flag_byte
             else if flag_byte < 0x20 then decode_type_c dest src1 flag_byte
             else if flag_byte < 0x40 then decode_big_match dest src1 flag_byte
             else decode_little_match dest src1 flag_byte))"


text \<open>Every packet that decodes leaves the source buffer alone and moves forward in it.\<close>

lemma read8_Inr:
  assumes "read8 s = Inr (b, s')"
  shows "buffer s' = buffer s" and "pos s' = pos s + 1" and "pos s < length (buffer s)"
    and "b = buffer s ! pos s"
  using assms by (auto simp: read8_def split: if_splits)

lemma copy_bytes_Inr:
  assumes "copy_bytes dest src n = Inr (dest', src')"
  shows "buffer src' = buffer src \<and> pos src' = pos src + n
    \<and> (0 < n \<longrightarrow> pos src + n \<le> length (buffer src))"
  using assms
proof (induction n arbitrary: dest src)
  case 0
  then show ?case by simp
next
  case (Suc n)
  from Suc.prems obtain b s1 where r: "read8 src = Inr (b, s1)"
    and c: "copy_bytes (write8 dest b) s1 n = Inr (dest', src')"
    by (auto split: sum.splits)
  from Suc.IH [OF c] read8_Inr [OF r] show ?case by (cases n) auto
qed

lemma skip_pad_ge: "p \<le> skip_pad p"
proof (induction p rule: skip_pad.induct)
  case (1 p)
  show ?case
  proof (cases "p mod 0x1000 \<noteq> 0x10")
    case True
    with 1 have "p + 1 \<le> skip_pad (p + 1)" by simp
    moreover have "skip_pad p = skip_pad (p + 1)"
      using True by (subst skip_pad.simps) simp
    ultimately show ?thesis by simp
  next
    case False
    then show ?thesis by (subst skip_pad.simps) simp
  qed
qed

lemma skip_pad_aligned: "skip_pad p mod 0x1000 = 0x10"
proof (induction p rule: skip_pad.induct)
  case (1 p)
  show ?case
  proof (cases "p mod 0x1000 \<noteq> 0x10")
    case True
    with 1 have "skip_pad (p + 1) mod 0x1000 = 0x10" by simp
    moreover have "skip_pad p = skip_pad (p + 1)"
      using True by (subst skip_pad.simps) simp
    ultimately show ?thesis by simp
  next
    case False
    then show ?thesis by (subst skip_pad.simps) simp
  qed
qed

lemma finish_packet_Inr:
  assumes "finish_packet dest src off n = Inr (dest', src')"
  shows "buffer src' = buffer src"
    and "pos src' = pos src + unat (buffer src ! (pos src - 2) AND 3)"
    and "pos src - 2 < length (buffer src)"
proof -
  from assms obtain d1 b where
    p: "peek8_at src (pos src - 2) = Inr b" and
    t: "(if unat (b AND 3) \<noteq> 0 then copy_bytes d1 src (unat (b AND 3)) else Inr (d1, src))
          = Inr (dest', src')"
    by (auto simp: finish_packet_def Let_def split: sum.splits)
  from p have b: "b = buffer src ! (pos src - 2)" and l: "pos src - 2 < length (buffer src)"
    by (auto simp: peek8_at_def split: if_splits)
  from l show "pos src - 2 < length (buffer src)" .
  show "buffer src' = buffer src"
    using t copy_bytes_Inr by (auto split: if_splits)
  show "pos src' = pos src + unat (buffer src ! (pos src - 2) AND 3)"
    using t copy_bytes_Inr b by (auto split: if_splits)
qed

lemma read_length_Inr:
  assumes "read_length src f m extra = Inr (n, src')"
  shows "buffer src' = buffer src" and "pos src \<le> pos src'"
    and "pos src' = pos src + (if f AND m = 0 then 1 else 0)"
    and "f AND m = 0 \<Longrightarrow> pos src < length (buffer src)"
  using assms by (auto simp: read_length_def read8_def split: if_splits)

lemma read2_Inr:
  assumes "read2 src = Inr (b0, b1, src')"
  shows "buffer src' = buffer src" and "pos src' = pos src + 2"
    and "pos src + 1 < length (buffer src)"
    and "b0 = buffer src ! pos src" and "b1 = buffer src ! (pos src + 1)"
  using assms by (auto simp: read2_def read8_def split: if_splits)

lemma decode_literal_Inr:
  assumes "decode_literal dest src f = Inr (dest', src')"
  shows "buffer src' = buffer src" and "pos src \<le> pos src'"
proof -
  from assms obtain n s1 where
    h: "(if f \<noteq> 0 then Inr (unat f + 3, src)
         else (case read8 src of Inl e \<Rightarrow> Inl e | Inr (x, s) \<Rightarrow> Inr (unat x + 18, s)))
        = Inr (n, s1)"
    and c: "copy_bytes dest s1 n = Inr (dest', src')"
    by (auto simp: decode_literal_def split: sum.splits if_splits)
  from h have "buffer s1 = buffer src \<and> pos src \<le> pos s1"
    by (auto simp: read8_def split: if_splits)
  with copy_bytes_Inr [OF c] show "buffer src' = buffer src" and "pos src \<le> pos src'"
    by simp_all
qed

lemma decode_type_c_Inr:
  assumes "decode_type_c dest src f = Inr (dest', src')"
  shows "buffer src' = buffer src" and "pos src \<le> pos src'"
proof -
  from assms obtain n s1 b0 b1 s2 where
    l: "read_length src f 7 7 = Inr (n, s1)" and r: "read2 s1 = Inr (b0, b1, s2)" and
    f: "(if lookback_delta_c f b0 b1 \<noteq> 0
         then finish_packet dest s2 (int (pos dest) + lookback_delta_c f b0 b1 - 0x4000) (n + 2)
         else if n \<noteq> 1 then Inr (dest, s2\<lparr>pos := skip_pad (pos s2)\<rparr>)
         else finish_packet dest s2 (int (pos dest)) n) = Inr (dest', src')"
    by (auto simp: decode_type_c_def Let_def split: sum.splits)
  have s2: "buffer s2 = buffer src" "pos src \<le> pos s2"
    using read_length_Inr(1,2) [OF l] read2_Inr(1,2) [OF r] by simp_all
  from f have "buffer src' = buffer s2 \<and> pos s2 \<le> pos src'"
    using skip_pad_ge [of "pos s2"]
    by (auto split: if_splits dest: finish_packet_Inr(1,2))
  with s2 show "buffer src' = buffer src" and "pos src \<le> pos src'" by simp_all
qed

lemma decode_big_match_Inr:
  assumes "decode_big_match dest src f = Inr (dest', src')"
  shows "buffer src' = buffer src" and "pos src \<le> pos src'"
proof -
  from assms obtain n s1 b0 b1 s2 off where
    l: "read_length src f 0x1f 0x1f = Inr (n, s1)" and r: "read2 s1 = Inr (b0, b1, s2)" and
    f: "finish_packet dest s2 off (n + 2) = Inr (dest', src')"
    by (auto simp: decode_big_match_def split: sum.splits)
  show "buffer src' = buffer src" and "pos src \<le> pos src'"
    using read_length_Inr(1,2) [OF l] read2_Inr(1,2) [OF r] finish_packet_Inr(1,2) [OF f]
    by simp_all
qed

lemma decode_little_match_Inr:
  assumes "decode_little_match dest src f = Inr (dest', src')"
  shows "buffer src' = buffer src" and "pos src \<le> pos src'"
proof -
  from assms obtain b1 s1 off n where
    r: "read8 src = Inr (b1, s1)" and
    f: "finish_packet dest s1 off n = Inr (dest', src')"
    by (auto simp: decode_little_match_def split: sum.splits)
  show "buffer src' = buffer src" and "pos src \<le> pos src'"
    using read8_Inr(1,2) [OF r] finish_packet_Inr(1,2) [OF f] by simp_all
qed

lemma decode_packet_Inr:
  assumes "decode_packet (dest, src) = Inr (dest', src')"
  shows "buffer src' = buffer src" and "pos src < pos src'"
    and "pos src < length (buffer src)"
proof -
  from assms obtain f s1 where r: "read8 src = Inr (f, s1)" and
    d: "(if f < 0x10 then decode_literal dest s1 f
         else if f < 0x20 then decode_type_c dest s1 f
         else if f < 0x40 then decode_big_match dest s1 f
         else decode_little_match dest s1 f) = Inr (dest', src')"
    by (auto simp: decode_packet_def split: sum.splits)
  from d have "buffer src' = buffer s1 \<and> pos s1 \<le> pos src'"
    by (auto split: if_splits dest: decode_literal_Inr decode_type_c_Inr
        decode_big_match_Inr decode_little_match_Inr)
  with read8_Inr [OF r] show "buffer src' = buffer src" and "pos src < pos src'"
    and "pos src < length (buffer src)" by simp_all
qed

text \<open>
  The loop of \<open>decompress_wad_n\<close>:
  \<open>while(src.pos < header.total_size && (bytes_to_decompress == 0 || dest.pos < bytes_to_decompress))\<close>.
\<close>

function decompress_loop :: "nat \<Rightarrow> nat \<Rightarrow> array_stream \<times> array_stream
    \<Rightarrow> error + (array_stream \<times> array_stream)" where
  "decompress_loop total_size bytes_to_decompress st =
     (if pos (snd st) < total_size
         \<and> (bytes_to_decompress = 0 \<or> pos (fst st) < bytes_to_decompress)
      then (case decode_packet st of
              Inl e \<Rightarrow> Inl e
            | Inr st' \<Rightarrow> decompress_loop total_size bytes_to_decompress st')
      else Inr st)"
  by pat_completeness auto
termination
proof (relation "measure (\<lambda>(t, n, st). length (buffer (snd st)) - pos (snd st))")
  show "wf (measure (\<lambda>(t::nat, n::nat, st::array_stream \<times> array_stream).
      length (buffer (snd st)) - pos (snd st)))"
    by simp
next
  fix total_size bytes_to_decompress :: nat and st st' :: "array_stream \<times> array_stream"
  assume "decode_packet st = Inr st'"
  then have "decode_packet (fst st, snd st) = Inr (fst st', snd st')" by simp
  from decode_packet_Inr [OF this]
  show "((total_size, bytes_to_decompress, st'), (total_size, bytes_to_decompress, st))
      \<in> measure (\<lambda>(t, n, st). length (buffer (snd st)) - pos (snd st))"
    by simp
qed

declare decompress_loop.simps [simp del]

text \<open>
  Modelled from the spec: the header is read by \<open>src.read<wad_header>(0)\<close>, whose struct
  and reader are not part of the sources at hand. The spec gives its layout: 16 bytes,
  bytes 0 to 2 the magic, bytes 3 to 6 the little-endian \<open>total_size\<close>; an input too
  small to hold a header is the failure \<open>InvalidParameter\<close>.
\<close>

definition le32 :: "u8 list \<Rightarrow> nat" where
  "le32 bs = unat (bs ! 0) + 0x100 * unat (bs ! 1) + 0x10000 * unat (bs ! 2)
     + 0x1000000 * unat (bs ! 3)"

definition read_header :: "array_stream \<Rightarrow> error + (u8 list \<times> nat \<times> array_stream)" where
  "read_header src =
     (if length (buffer src) < 0x10 then Inl InvalidParameter
      else Inr (take 3 (buffer src), le32 (take 4 (drop 3 (buffer src))), seek src 0x10))"

definition decompress_wad_n :: "array_stream \<Rightarrow> array_stream \<Rightarrow> nat \<Rightarrow> error + array_stream" where
  "decompress_wad_n dest src bytes_to_decompress =
     (case read_header src of
        Inl e \<Rightarrow> Inl e
      | Inr (magic, total_size, src1) \<Rightarrow>
          if \<not> validate_wad magic then Inl BadMagic
          else (case decompress_loop total_size bytes_to_decompress (dest, src1) of
                  Inl e \<Rightarrow> Inl e
                | Inr (dest', src') \<Rightarrow> Inr dest'))"

definition decompress_wad :: "array_stream \<Rightarrow> array_stream \<Rightarrow> error + array_stream" where
  "decompress_wad dest src = decompress_wad_n dest src 0"

subsection \<open>The length of a packet\<close>

text \<open>
  \<open>src[i]\<close> on a raw pointer: a read outside the bytes that are there has no defined
  result in the source, and is the failure \<open>OutOfBounds\<close> here.
\<close>

definition rd :: "u8 list \<Rightarrow> nat \<Rightarrow> error + u8" where
  "rd src i = (if i < length src then Inr (src ! i) else Inl OutOfBounds)"

definition get_wad_packet_size :: "u8 list \<Rightarrow> nat \<Rightarrow> error + nat" where
  "get_wad_packet_size src bytes_left =
     (case rd src 0 of
        Inl e \<Rightarrow> Inl e
      | Inr flag_byte \<Rightarrow>
          if flag_byte < 0x10
          then (case (if flag_byte \<noteq> 0 then Inr (1 + (unat flag_byte + 3))
                      else (case rd src 1 of
                              Inl e \<Rightarrow> Inl e
                            | Inr x \<Rightarrow> Inr (1 + (1 + (unat x + 18))))) of
                  Inl e \<Rightarrow> Inl e
                | Inr size_of_packet \<Rightarrow>
                    if size_of_packet < bytes_left
                    then (case rd src size_of_packet of
                            Inl e \<Rightarrow> Inl e
                          | Inr nxt \<Rightarrow>
                              if nxt < 0x10 then Inl DoubleLiteral else Inr size_of_packet)
                    else Inr size_of_packet)
          else
            (let size_of_packet =
                   (if flag_byte < 0x20
                    then (if flag_byte AND 7 = 0 then 1 + 1 else 1) + (1 + 1)
                    else if flag_byte < 0x40
                    then (if flag_byte AND 0x1f = 0 then 1 + 1 else 1) + (1 + 1)
                    else 1 + 1)
             in (case rd src (size_of_packet - 2) of
                   Inl e \<Rightarrow> Inl e
                 | Inr b \<Rightarrow> Inr (size_of_packet + unat (b AND 3)))))"


text \<open>
  The decoder's own test for a pad packet, on the bytes from the flag byte on: a flag in
  0x10 to 0x1f, a lookback equal to \<open>dest.pos\<close>, and a length field other than 1.
\<close>

definition is_pad_packet :: "u8 list \<Rightarrow> bool" where
  "is_pad_packet bs =
     (case bs of
        [] \<Rightarrow> False
      | flag_byte # rest \<Rightarrow>
          0x10 \<le> flag_byte \<and> flag_byte < 0x20 \<and>
          (let (bytes_to_copy, r) =
                 (if flag_byte AND 7 = 0 then (unat (rest ! 0) + 7, drop 1 rest)
                  else (unat (flag_byte AND 7), rest))
           in lookback_delta_c flag_byte (r ! 0) (r ! 1) = 0 \<and> bytes_to_copy \<noteq> 1))"

subsection \<open>Compression: the match finder\<close>

text \<open>
  Subtraction on \<open>size_t\<close> wraps around; where the source subtracts, the wrap-around is
  written out.
\<close>

definition size_t_sub :: "nat \<Rightarrow> nat \<Rightarrow> nat" where
  "size_t_sub a b = (if b \<le> a then a - b else 2 ^ 64 - (b - a))"

definition sub_clamped :: "nat \<Rightarrow> nat \<Rightarrow> nat" where
  "sub_clamped lhs rhs = (if rhs > lhs then 0 else lhs - rhs)"

record match_result =
  literal_size :: nat
  match_offset :: nat
  match_size :: nat

definition DO_NOT_INJECT_FLAG :: "32 word" where "DO_NOT_INJECT_FLAG = 0x100"
definition MAX_MATCH_SIZE :: nat where "MAX_MATCH_SIZE = 0x100"
definition MAX_LITERAL_SIZE :: nat where "MAX_LITERAL_SIZE = 273"
definition MAX_LITTLE_MATCH_SIZE :: nat where "MAX_LITTLE_MATCH_SIZE = 8"
definition MAX_BIG_MATCH_SIZE :: nat where "MAX_BIG_MATCH_SIZE = 33"
definition MAX_LITTLE_MATCH_LOOKBACK :: nat where "MAX_LITTLE_MATCH_LOOKBACK = 2048"
definition MAX_BIGGER_MATCH_LOOKBACK :: nat where "MAX_BIGGER_MATCH_LOOKBACK = 16384"

text \<open>\<open>*(uint16_t*) &src[j]\<close>: the two bytes at \<open>j\<close> and \<open>j + 1\<close>.\<close>

definition rd16 :: "u8 list \<Rightarrow> nat \<Rightarrow> error + (u8 \<times> u8)" where
  "rd16 src j = (if j + 1 < length src then Inr (src ! j, src ! (j + 1)) else Inl OutOfBounds)"

text \<open>The innermost loop of \<open>find_match\<close>: count the equal bytes, from \<open>k\<close> on.\<close>

function count_equal :: "u8 list \<Rightarrow> nat \<Rightarrow> nat \<Rightarrow> nat \<Rightarrow> nat \<Rightarrow> error + nat" where
  "count_equal src target j max_match_size k =
     (if k < max_match_size
      then (case rd src (target + k) of
              Inl e \<Rightarrow> Inl e
            | Inr l_val \<Rightarrow>
                (case rd src (j + k) of
                   Inl e \<Rightarrow> Inl e
                 | Inr r_val \<Rightarrow>
                     if l_val \<noteq> r_val then Inr k
                     else count_equal src target j max_match_size (k + 1)))
      else Inr k)"
  by pat_completeness auto
termination
  by (relation "measure (\<lambda>(src, target, j, max_match_size, k). max_match_size - k)") auto

declare count_equal.simps [simp del]

text \<open>The loop over the window: \<open>for(size_t j = low; j < target; j++)\<close>.\<close>

function scan_window :: "bool \<Rightarrow> u8 list \<Rightarrow> nat \<Rightarrow> nat \<Rightarrow> nat \<Rightarrow> match_result
    \<Rightarrow> error + match_result" where
  "scan_window end_of_buffer src target max_match_size j m =
     (if j < target
      then (case (if \<not> end_of_buffer
                  then (case rd16 src j of
                          Inl e \<Rightarrow> Inl e
                        | Inr a \<Rightarrow>
                            (case rd16 src target of
                               Inl e \<Rightarrow> Inl e
                             | Inr b \<Rightarrow> Inr (a \<noteq> b)))
                  else Inr False) of
              Inl e \<Rightarrow> Inl e
            | Inr skip \<Rightarrow>
                if skip then scan_window end_of_buffer src target max_match_size (j + 1) m
                else (case count_equal src target j max_match_size
                             (if end_of_buffer then 0 else 2) of
                        Inl e \<Rightarrow> Inl e
                      | Inr k \<Rightarrow>
                          scan_window end_of_buffer src target max_match_size (j + 1)
                            (if k \<ge> 3 \<and> k > match_size m
                             then m\<lparr>match_offset := j, match_size := k\<rparr> else m)))
      else Inr m)"
  by pat_completeness auto
termination
  by (relation "measure (\<lambda>(e, src, target, mx, j, m). target - j)") auto

declare scan_window.simps [simp del]

text \<open>The loop over the literal budget: \<open>for(size_t i = 0; i < max_literal_size; i++)\<close>.\<close>

function find_match_loop :: "bool \<Rightarrow> u8 list \<Rightarrow> nat \<Rightarrow> nat \<Rightarrow> nat \<Rightarrow> nat \<Rightarrow> match_result
    \<Rightarrow> error + match_result" where
  "find_match_loop end_of_buffer src src_pos src_end max_literal_size i m =
     (if i < max_literal_size
      then (let target = src_pos + i;
                low = sub_clamped target MAX_BIGGER_MATCH_LOOKBACK;
                max_match_size =
                  (if end_of_buffer
                   then min MAX_MATCH_SIZE (size_t_sub (size_t_sub src_end src_pos) i)
                   else MAX_MATCH_SIZE)
            in (case scan_window end_of_buffer src target max_match_size low m of
                  Inl e \<Rightarrow> Inl e
                | Inr m' \<Rightarrow>
                    if match_size m' \<ge> 3 then Inr (m'\<lparr>literal_size := i\<rparr>)
                    else find_match_loop end_of_buffer src src_pos src_end
                           max_literal_size (i + 1) m'))
      else Inr m)"
  by pat_completeness auto
termination
  by (relation "measure (\<lambda>(e, src, p, se, mx, i, m). mx - i)") auto

declare find_match_loop.simps [simp del]

definition find_match :: "bool \<Rightarrow> u8 list \<Rightarrow> nat \<Rightarrow> nat \<Rightarrow> error + match_result" where
  "find_match end_of_buffer src src_pos src_end =
     (let max_literal_size =
            (if end_of_buffer then min MAX_LITERAL_SIZE (size_t_sub src_end src_pos)
             else MAX_LITERAL_SIZE)
      in find_match_loop end_of_buffer src src_pos src_end max_literal_size 0
           \<lparr>literal_size = max_literal_size, match_offset = 0, match_size = 0\<rparr>)"


subsection \<open>Compression: the packet encoders\<close>

definition DUMMY_PACKET :: "u8 list" where
  "DUMMY_PACKET = [0x11, 0, 0]"

text \<open>
  \<open>last_flag = dest.buffer[dest.pos]\<close> reads a \<open>char\<close> of the vector into a
  \<open>uint32_t\<close>: the byte is sign-extended (\<open>char\<close> is signed on the platforms the tool
  is built for). \<open>last_flag\<close> is only ever compared with 0x10 and with 0x100.
\<close>

definition char_to_u32 :: "u8 \<Rightarrow> 32 word" where
  "char_to_u32 b = scast b"

definition encode_match_packet :: "array_stream \<Rightarrow> u8 list \<Rightarrow> nat \<Rightarrow> nat \<Rightarrow> 32 word
    \<Rightarrow> nat \<Rightarrow> nat \<Rightarrow> error + (array_stream \<times> nat \<times> 32 word)" where
  "encode_match_packet dest src src_pos src_end last_flag match_offset' match_size' =
     (let lookback = size_t_sub src_pos match_offset';
          delta = size_t_sub (size_t_sub src_pos match_offset') 1
      in (case (if match_size' \<le> MAX_LITTLE_MATCH_SIZE \<and> lookback \<le> MAX_LITTLE_MATCH_LOOKBACK
                then (if \<not> match_size' \<ge> 3 then Inl AssertionFailed
                      else (let pos_major = (of_nat (delta div 8) :: u8);
                                pos_minor = (of_nat (delta mod 8) :: u8)
                            in Inr (buffer dest @
                                 [push_bit 5 (of_nat (size_t_sub match_size' 1)) OR push_bit 2 pos_minor,
                                  pos_major])))
                else (let head =
                            (if match_size' > MAX_BIG_MATCH_SIZE
                             then [push_bit 5 1, of_nat (size_t_sub match_size' (0x1f + 2))]
                             else [push_bit 5 1 OR of_nat (size_t_sub match_size' 2)]);
                          pos_minor = (of_nat (delta mod 0x40) :: u8);
                          pos_major = (of_nat (delta div 0x40) :: u8)
                      in Inr (buffer dest @ head @ [push_bit 2 pos_minor, pos_major]))) of
            Inl e \<Rightarrow> Inl e
          | Inr buf \<Rightarrow>
              (case rd buf (pos dest) of
                 Inl e \<Rightarrow> Inl e
               | Inr b \<Rightarrow> Inr (dest\<lparr>buffer := buf\<rparr>, src_pos + match_size', char_to_u32 b))))"

text \<open>
  \<open>dest.buffer.insert(dest.buffer.end(), DUMMY_PACKET.begin(), DUMMY_PACKET.end());
  dest.pos = dest.buffer.size()\<close>.
\<close>

definition push_dummy :: "array_stream \<Rightarrow> array_stream" where
  "push_dummy dest =
     dest\<lparr>buffer := buffer dest @ DUMMY_PACKET, pos := length (buffer dest @ DUMMY_PACKET)\<rparr>"

text \<open>The range \<open>src + src_pos\<close> to \<open>src + src_pos + literal_size\<close> of the source.\<close>

definition src_range :: "u8 list \<Rightarrow> nat \<Rightarrow> nat \<Rightarrow> error + u8 list" where
  "src_range src p n = (if p + n \<le> length src then Inr (take n (drop p src)) else Inl OutOfBounds)"

definition encode_literal_packet :: "array_stream \<Rightarrow> u8 list \<Rightarrow> nat \<Rightarrow> nat \<Rightarrow> 32 word
    \<Rightarrow> nat \<Rightarrow> error + (array_stream \<times> nat \<times> 32 word)" where
  "encode_literal_packet dest src src_pos src_end last_flag literal_size' =
     (let (dest1, last_flag1) =
            (if last_flag < 0x10 then (push_dummy dest, 0x11) else (dest, last_flag))
      in if literal_size' \<le> 3
         then (let (dest2, last_flag2) =
                     (if last_flag1 = DO_NOT_INJECT_FLAG then (push_dummy dest1, 0x11)
                      else (dest1, last_flag1))
               in (case rd (buffer dest2) (size_t_sub (pos dest2) 2) of
                     Inl e \<Rightarrow> Inl e
                   | Inr b \<Rightarrow>
                       (case src_range src src_pos literal_size' of
                          Inl e \<Rightarrow> Inl e
                        | Inr bytes \<Rightarrow>
                            Inr (dest2\<lparr>buffer :=
                                   (buffer dest2)[pos dest2 - 2 := b OR of_nat literal_size'] @ bytes\<rparr>,
                                 src_pos + literal_size', DO_NOT_INJECT_FLAG))))
         else (let head = (if literal_size' \<le> 18 then [of_nat (literal_size' - 3)]
                           else [0, of_nat (literal_size' - 18)])
               in (case src_range src src_pos literal_size' of
                     Inl e \<Rightarrow> Inl e
                   | Inr bytes \<Rightarrow>
                       (let buf = buffer dest1 @ head @ bytes
                        in (case rd buf (pos dest1) of
                              Inl e \<Rightarrow> Inl e
                            | Inr b \<Rightarrow>
                                Inr (dest1\<lparr>buffer := buf\<rparr>, src_pos + literal_size',
                                     char_to_u32 b))))))"


subsection \<open>Compression: the intermediate encoder\<close>

text \<open>What the match finder returns, as far as the termination of its caller needs it.\<close>


lemma scan_window_mono:
  "scan_window eob src target mx j m = Inr m' \<Longrightarrow>
     literal_size m' = literal_size m \<and> match_size m \<le> match_size m'
     \<and> (match_size m' < 3 \<longrightarrow> m' = m)"
proof (induction eob src target mx j m rule: scan_window.induct)
  case (1 eob src target mx j m)
  show ?case
  proof (cases "j < target")
    case False
    with "1.prems" show ?thesis by (simp add: scan_window.simps)
  next
    case True
    from "1.prems" True obtain skip where
      sk: "(if \<not> eob
            then (case rd16 src j of Inl e \<Rightarrow> Inl e
                  | Inr a \<Rightarrow> (case rd16 src target of Inl e \<Rightarrow> Inl e | Inr b \<Rightarrow> Inr (a \<noteq> b)))
            else Inr False) = Inr skip"
      by (subst (asm) scan_window.simps) (auto split: sum.splits)
    show ?thesis
    proof (cases skip)
      case True
      with \<open>j < target\<close> sk "1.prems"
      have "scan_window eob src target mx (j + 1) m = Inr m'"
        by (subst (asm) scan_window.simps) simp
      from "1.IH"(1) [OF \<open>j < target\<close> sk True this] show ?thesis .
    next
      case False
      with \<open>j < target\<close> sk "1.prems" obtain k where
        k: "count_equal src target j mx (if eob then 0 else 2) = Inr k" and
        r: "scan_window eob src target mx (j + 1)
              (if k \<ge> 3 \<and> k > match_size m then m\<lparr>match_offset := j, match_size := k\<rparr> else m)
            = Inr m'"
        by (subst (asm) scan_window.simps) (auto split: sum.splits)
      note ih = "1.IH"(2) [OF \<open>j < target\<close> sk False k r]
      show ?thesis
      proof (cases "k \<ge> 3 \<and> k > match_size m")
        case True
        with ih have "literal_size m' = literal_size m" "k \<le> match_size m'" by simp_all
        with True show ?thesis by simp
      next
        case False
        with ih show ?thesis by simp
      qed
    qed
  qed
qed

lemma find_match_loop_result:
  "find_match_loop eob src p e mx i m = Inr m' \<Longrightarrow> match_size m < 3 \<Longrightarrow>
     (3 \<le> match_size m' \<and> literal_size m' < mx) \<or> m' = m"
proof (induction eob src p e mx i m rule: find_match_loop.induct)
  case (1 eob src p e mx i m)
  show ?case
  proof (cases "i < mx")
    case False
    with "1.prems" show ?thesis by (simp add: find_match_loop.simps)
  next
    case True
    define mms where "mms = (if eob then min MAX_MATCH_SIZE (size_t_sub (size_t_sub e p) i)
                   else MAX_MATCH_SIZE)"
    from "1.prems"(1) True obtain m1 where
      sc: "scan_window eob src (p + i) mms (sub_clamped (p + i) MAX_BIGGER_MATCH_LOOKBACK) m = Inr m1"
      and r: "(if match_size m1 \<ge> 3 then Inr (m1\<lparr>literal_size := i\<rparr>)
               else find_match_loop eob src p e mx (i + 1) m1) = Inr m'"
      by (subst (asm) find_match_loop.simps) (auto simp: Let_def mms_def split: sum.splits)
    note mono = scan_window_mono [OF sc]
    show ?thesis
    proof (cases "match_size m1 \<ge> 3")
      case True
      with r have "m' = m1\<lparr>literal_size := i\<rparr>" by simp
      with True \<open>i < mx\<close> show ?thesis by simp
    next
      case False
      with r have rec: "find_match_loop eob src p e mx (i + 1) m1 = Inr m'" by simp
      from False mono have m1: "m1 = m" by simp
      from "1.IH" [OF \<open>i < mx\<close> refl refl refl sc [unfolded mms_def] False rec] "1.prems"(2)
      show ?thesis using m1 by simp
    qed
  qed
qed


lemma find_match_progress:
  assumes "find_match eob src p e = Inr m" and "p < e"
  shows "0 < literal_size m \<or> 3 \<le> match_size m"
proof -
  define mx where "mx = (if eob then min MAX_LITERAL_SIZE (size_t_sub e p) else MAX_LITERAL_SIZE)"
  have mx: "0 < mx" using assms(2) by (simp add: mx_def MAX_LITERAL_SIZE_def size_t_sub_def)
  from assms(1) have "find_match_loop eob src p e mx 0
      \<lparr>literal_size = mx, match_offset = 0, match_size = 0\<rparr> = Inr m"
    by (simp add: find_match_def mx_def Let_def)
  from find_match_loop_result [OF this] mx show ?thesis by auto
qed

lemma encode_match_packet_Inr:
  assumes "encode_match_packet dest src sp se lf mo ms = Inr (d', sp', lf')"
  shows "sp' = sp + ms"
  using assms by (auto simp: encode_match_packet_def Let_def split: sum.splits if_splits)

lemma encode_literal_packet_Inr:
  assumes "encode_literal_packet dest src sp se lf ls = Inr (d', sp', lf')"
  shows "sp' = sp + ls"
  using assms
  by (auto simp: encode_literal_packet_def Let_def split: sum.splits if_splits prod.splits)

text \<open>The body of the loop of \<open>compress_wad_intermediate\<close>: one match result, encoded.\<close>

definition encode_step :: "u8 list \<Rightarrow> nat \<Rightarrow> array_stream \<times> nat \<times> 32 word
    \<Rightarrow> error + (array_stream \<times> nat \<times> 32 word)" where
  "encode_step src src_end st =
     (case st of (thread_dest, src_pos, last_flag) \<Rightarrow>
        (case (if src_pos + MAX_MATCH_SIZE \<ge> src_end then find_match True src src_pos src_end
               else find_match False src src_pos src_end) of
           Inl e \<Rightarrow> Inl e
         | Inr m \<Rightarrow>
             (case (if literal_size m = 0
                    then encode_match_packet thread_dest src src_pos src_end last_flag
                           (match_offset m) (match_size m)
                    else (case encode_literal_packet thread_dest src src_pos src_end last_flag
                                 (literal_size m) of
                            Inl e \<Rightarrow> Inl e
                          | Inr (d1, src_pos1, last_flag1) \<Rightarrow>
                              if match_size m > 0
                              then encode_match_packet (d1\<lparr>pos := length (buffer d1)\<rparr>) src
                                     src_pos1 src_end last_flag1 (match_offset m) (match_size m)
                              else Inr (d1, src_pos1, last_flag1))) of
                Inl e \<Rightarrow> Inl e
              | Inr (d2, src_pos2, last_flag2) \<Rightarrow>
                  Inr (d2\<lparr>pos := length (buffer d2)\<rparr>, src_pos2, last_flag2))))"

lemma encode_step_progress:
  assumes "encode_step src src_end (d, sp, lf) = Inr (d', sp', lf')" and "sp < src_end"
  shows "sp < sp'"
proof -
  from assms(1) obtain m where
    fm: "(if sp + MAX_MATCH_SIZE \<ge> src_end then find_match True src sp src_end
          else find_match False src sp src_end) = Inr m"
    by (auto simp: encode_step_def split: sum.splits)
  then obtain eob where "find_match eob src sp src_end = Inr m" by (auto split: if_splits)
  from find_match_progress [OF this assms(2)]
  have pr: "0 < literal_size m \<or> 3 \<le> match_size m" .
  from assms(1) fm obtain d2 where
    en: "(if literal_size m = 0
          then encode_match_packet d src sp src_end lf (match_offset m) (match_size m)
          else (case encode_literal_packet d src sp src_end lf (literal_size m) of
                  Inl e \<Rightarrow> Inl e
                | Inr (d1, src_pos1, last_flag1) \<Rightarrow>
                    if match_size m > 0
                    then encode_match_packet (d1\<lparr>pos := length (buffer d1)\<rparr>) src
                           src_pos1 src_end last_flag1 (match_offset m) (match_size m)
                    else Inr (d1, src_pos1, last_flag1))) = Inr (d2, sp', lf')"
    by (auto simp: encode_step_def split: sum.splits)
  show ?thesis
  proof (cases "literal_size m = 0")
    case True
    with en pr encode_match_packet_Inr show ?thesis by fastforce
  next
    case False
    with en obtain d1 sp1 lf1 where
      l: "encode_literal_packet d src sp src_end lf (literal_size m) = Inr (d1, sp1, lf1)" and
      r: "(if match_size m > 0
           then encode_match_packet (d1\<lparr>pos := length (buffer d1)\<rparr>) src
                  sp1 src_end lf1 (match_offset m) (match_size m)
           else Inr (d1, sp1, lf1)) = Inr (d2, sp', lf')"
      by (auto split: sum.splits)
    from encode_literal_packet_Inr [OF l] False have "sp < sp1" by simp
    moreover from r have "sp1 \<le> sp'"
      by (auto split: if_splits dest: encode_match_packet_Inr)
    ultimately show ?thesis by simp
  qed
qed

function intermediate_loop :: "u8 list \<Rightarrow> nat \<Rightarrow> array_stream \<times> nat \<times> 32 word
    \<Rightarrow> error + u8 list" where
  "intermediate_loop src src_end st =
     (if fst (snd st) < src_end
      then (case encode_step src src_end st of
              Inl e \<Rightarrow> Inl e
            | Inr st' \<Rightarrow> intermediate_loop src src_end st')
      else Inr (buffer (fst st)))"
  by pat_completeness auto
termination
proof (relation "measure (\<lambda>(src, src_end, st). src_end - fst (snd st))")
  show "wf (measure (\<lambda>(src::u8 list, src_end::nat, st::array_stream \<times> nat \<times> 32 word).
      src_end - fst (snd st)))"
    by simp
next
  fix src :: "u8 list" and src_end :: nat and st st' :: "array_stream \<times> nat \<times> 32 word"
  assume lt: "fst (snd st) < src_end" and "encode_step src src_end st = Inr st'"
  then have "encode_step src src_end (fst st, fst (snd st), snd (snd st))
      = Inr (fst st', fst (snd st'), snd (snd st'))" by simp
  from encode_step_progress [OF this lt] lt
  show "((src, src_end, st'), (src, src_end, st)) \<in> measure (\<lambda>(src, src_end, st). src_end - fst (snd st))"
    by simp
qed

declare intermediate_loop.simps [simp del]

definition compress_wad_intermediate :: "u8 list \<Rightarrow> nat \<Rightarrow> nat \<Rightarrow> error + u8 list" where
  "compress_wad_intermediate src src_pos src_end =
     intermediate_loop src src_end (empty_stream, src_pos, DO_NOT_INJECT_FLAG)"


subsection \<open>Compression: the driver\<close>

text \<open>The padding loop: \<open>while(dest.pos % 0x2000 != 0x10) dest.write8(0xee)\<close>.\<close>

lemma pos_write8 [simp]: "pos (write8 s b) = pos s + 1"
  by (simp add: write8_def Let_def)

function pad_fill :: "array_stream \<Rightarrow> array_stream" where
  "pad_fill dest = (if pos dest mod 0x2000 \<noteq> 0x10 then pad_fill (write8 dest 0xee) else dest)"
  by pat_completeness auto
termination
proof (relation "measure (\<lambda>d. (0x2000 + 0x10 - pos d mod 0x2000) mod 0x2000)")
  show "wf (measure (\<lambda>d::array_stream. (0x2000 + 0x10 - pos d mod 0x2000) mod 0x2000))"
    by simp
next
  fix dest :: array_stream
  assume "pos dest mod 0x2000 \<noteq> 0x10"
  then have "(0x2000 + 0x10 - (pos dest + 1) mod 0x2000) mod 0x2000
      < (0x2000 + 0x10 - pos dest mod 0x2000) mod (0x2000::nat)"
    by (intro align_measure) simp_all
  then show "(write8 dest 0xee, dest)
      \<in> measure (\<lambda>d. (0x2000 + 0x10 - pos d mod 0x2000) mod 0x2000)"
    by simp
qed

declare pad_fill.simps [simp del]

text \<open>
  One iteration of the inner loop of \<open>compress_wad\<close>: one packet of block \<open>i\<close> is
  measured, a pad packet and the seam dummy are written where they are due, and the packet
  is appended.
\<close>

definition stitch_packet :: "nat \<Rightarrow> array_stream \<Rightarrow> array_stream
    \<Rightarrow> error + (array_stream \<times> array_stream)" where
  "stitch_packet i dest intermediate =
     (case get_wad_packet_size (drop (pos intermediate) (buffer intermediate))
             (length (buffer intermediate) - pos intermediate) of
        Inl e \<Rightarrow> Inl e
      | Inr packet_size \<Rightarrow>
          (let insert_dummy = (i \<noteq> 0 \<and> pos intermediate = 0);
               insert_size = (if insert_dummy then packet_size + 3 else packet_size);
               dest1 = (if ((pos dest + 0x1ff0) mod 0x2000) + insert_size > 0x2000 - 3
                        then pad_fill (write8 (write8 (write8 dest 0x12) 0x0) 0x0)
                        else dest);
               dest2 = (if insert_dummy then write8 (write8 (write8 dest1 0x11) 0) 0
                        else dest1)
           in (case src_range (buffer intermediate) (pos intermediate) packet_size of
                 Inl e \<Rightarrow> Inl e
               | Inr bytes \<Rightarrow>
                   Inr (dest2\<lparr>buffer := buffer dest2 @ bytes, pos := pos dest2 + packet_size\<rparr>,
                        intermediate\<lparr>pos := pos intermediate + packet_size\<rparr>))))"

lemma get_wad_packet_size_ge2:
  assumes "get_wad_packet_size src bytes_left = Inr n"
  shows "2 \<le> n"
  using assms
  by (auto simp: get_wad_packet_size_def Let_def split: sum.splits if_splits)

lemma stitch_packet_Inr:
  assumes "stitch_packet i dest im = Inr (dest', im')"
  shows "buffer im' = buffer im" and "pos im < pos im'"
    and "pos im' \<le> length (buffer im)"
proof -
  from assms obtain n bytes where
    g: "get_wad_packet_size (drop (pos im) (buffer im))
          (length (buffer im) - pos im) = Inr n" and
    r: "src_range (buffer im) (pos im) n = Inr bytes" and
    i: "im' = im\<lparr>pos := pos im + n\<rparr>"
    by (auto simp: stitch_packet_def Let_def split: sum.splits)
  from get_wad_packet_size_ge2 [OF g] have "2 \<le> n" .
  moreover from r have "pos im + n \<le> length (buffer im)"
    by (simp add: src_range_def split: if_splits)
  ultimately show "buffer im' = buffer im" and "pos im < pos im'"
    and "pos im' \<le> length (buffer im)"
    using i by simp_all
qed

text \<open>The walk over one block: \<open>while(intermediate.pos < intermediate.size())\<close>.\<close>

function stitch_block :: "nat \<Rightarrow> array_stream \<Rightarrow> array_stream \<Rightarrow> error + array_stream" where
  "stitch_block i dest intermediate =
     (if pos intermediate < length (buffer intermediate)
      then (case stitch_packet i dest intermediate of
              Inl e \<Rightarrow> Inl e
            | Inr (dest', intermediate') \<Rightarrow> stitch_block i dest' intermediate')
      else Inr dest)"
  by pat_completeness auto
termination
proof (relation "measure (\<lambda>(i, dest, im). length (buffer im) - pos im)")
  show "wf (measure (\<lambda>(i::nat, dest::array_stream, im::array_stream).
      length (buffer im) - pos im))"
    by simp
next
  fix i :: nat and dest intermediate dest' intermediate' :: array_stream
    and x :: "array_stream \<times> array_stream"
  assume lt: "pos intermediate < length (buffer intermediate)"
    and "stitch_packet i dest intermediate = Inr x" and "(dest', intermediate') = x"
  then have "stitch_packet i dest intermediate = Inr (dest', intermediate')" by simp
  from stitch_packet_Inr [OF this] lt
  show "((i, dest', intermediate'), (i, dest, intermediate))
      \<in> measure (\<lambda>(i, dest, im). length (buffer im) - pos im)"
    by simp
qed

declare stitch_block.simps [simp del]

text \<open>The outer loop: the blocks in order, \<open>intermediate.pos = 0\<close> at the start of each.\<close>

fun stitch_all :: "array_stream \<Rightarrow> nat \<Rightarrow> u8 list list \<Rightarrow> error + array_stream" where
  "stitch_all dest i [] = Inr dest"
| "stitch_all dest i (b # bs) =
     (case stitch_block i dest \<lparr>buffer = b, pos = 0\<rparr> of
        Inl e \<Rightarrow> Inl e
      | Inr dest' \<Rightarrow> stitch_all dest' (i + 1) bs)"

text \<open>
  The workers: block \<open>i\<close> is compressed by its own thread into its own buffer; the threads
  share nothing but the read-only source, so they are run one after the other here.

  With a count of zero, \<open>total_size % min_block_size\<close> and \<open>total_size / thread_count\<close>
  have a zero divisor, for which C++ defines no result. The two results are used only inside
  the loop over the blocks, which then runs zero times: no block is compressed, whatever the
  two values are, and \<open>compress_wad\<close> goes on to the header with no intermediate.
\<close>

fun collect :: "(error + 'a) list \<Rightarrow> error + 'a list" where
  "collect [] = Inr []"
| "collect (r # rs) =
     (case r of
        Inl e \<Rightarrow> Inl e
      | Inr x \<Rightarrow> (case collect rs of Inl e \<Rightarrow> Inl e | Inr xs \<Rightarrow> Inr (x # xs)))"

definition compress_blocks :: "u8 list \<Rightarrow> nat \<Rightarrow> error + u8 list list" where
  "compress_blocks src thread_count =
     (if thread_count = 1
      then collect [compress_wad_intermediate src 0 (length src)]
      else (let min_block_size = 0x100 * thread_count;
                total_size = length src + (min_block_size - length src mod min_block_size);
                block_size = total_size div thread_count
            in collect (map (\<lambda>i. compress_wad_intermediate src (block_size * i)
                                   (min (length src) (block_size * (i + 1))))
                          [0..<thread_count])))"

definition wad_header_bytes :: "u8 list" where
  "wad_header_bytes =
     [0x57, 0x41, 0x44, 0x00, 0x00, 0x00, 0x00, 0x57, 0x52, 0x45, 0x4e, 0x43, 0x48, 0x30, 0x31, 0x30]"

text \<open>
  Modelled from the spec: \<open>dest.write<uint32_t>(total_size)\<close> belongs to the stream class
  that is not part of the sources at hand; the spec has 32-bit values written little-endian.
\<close>

definition write_u32 :: "array_stream \<Rightarrow> 32 word \<Rightarrow> array_stream" where
  "write_u32 s v =
     write_n s [ucast v, ucast (drop_bit 8 v), ucast (drop_bit 16 v), ucast (drop_bit 24 v)]"

text \<open>
  \<open>compress_wad\<close>. The vector of intermediates is constructed with \<open>thread_count\<close>
  elements: a negative count is a length beyond every vector (\<open>LengthError\<close>). There is
  no other look at \<open>thread_count\<close> before the blocks are compressed.
\<close>

definition compress_wad :: "array_stream \<Rightarrow> array_stream \<Rightarrow> int \<Rightarrow> error + array_stream" where
  "compress_wad dest src thread_count =
     (if thread_count < 0 then Inl LengthError
      else (case compress_blocks (buffer src) (nat thread_count) of
              Inl e \<Rightarrow> Inl e
            | Inr intermediates \<Rightarrow>
                (let dest1 = write_n (seek dest 0) wad_header_bytes
                 in (case stitch_all dest1 0 intermediates of
                       Inl e \<Rightarrow> Inl e
                     | Inr dest2 \<Rightarrow>
                         (let total_size = (of_nat (pos dest2) :: 32 word)
                          in Inr (write_u32 (seek dest2 3) total_size))))))"


section \<open>Evaluation on concrete inputs\<close>

text \<open>
  Rules that unfold the loops one step at a time, for numerals, and the collections of
  definitions that the concrete computations below are simplified with.
\<close>

lemma copy_bytes_unfold:
  "0 < n \<Longrightarrow> copy_bytes dest src n =
     (case read8 src of Inl e \<Rightarrow> Inl e | Inr (b, src') \<Rightarrow> copy_bytes (write8 dest b) src' (n - 1))"
  by (cases n) (auto split: sum.splits)

lemma copy_lookback_unfold:
  "0 < n \<Longrightarrow> copy_lookback dest off n =
     (if 0 \<le> off \<and> nat off < length (buffer dest)
      then copy_lookback (write8 dest (buffer dest ! nat off)) (off + 1) (n - 1)
      else Inl BadLookback)"
  by (cases n) simp_all

lemmas consts_defs = DO_NOT_INJECT_FLAG_def MAX_MATCH_SIZE_def MAX_LITERAL_SIZE_def
  MAX_LITTLE_MATCH_SIZE_def MAX_BIG_MATCH_SIZE_def MAX_LITTLE_MATCH_LOOKBACK_def
  MAX_BIGGER_MATCH_LOOKBACK_def DUMMY_PACKET_def

lemmas stream_defs = empty_stream_def seek_def read8_def peek8_at_def write8_def

lemmas dec_defs = decode_packet_def decode_literal_def decode_type_c_def decode_big_match_def
  decode_little_match_def finish_packet_def read_length_def read2_def lookback_delta_c_def
  copy_bytes_unfold copy_lookback_unfold

lemmas enc_defs = find_match_def find_match_loop.simps scan_window.simps count_equal.simps
  size_t_sub_def sub_clamped_def rd_def rd16_def encode_step_def encode_match_packet_def
  encode_literal_packet_def push_dummy_def src_range_def char_to_u32_def
  intermediate_loop.simps compress_wad_intermediate_def

lemmas drv_defs = compress_wad_def compress_blocks_def stitch_block.simps stitch_packet_def
  get_wad_packet_size_def pad_fill.simps wad_header_bytes_def write_u32_def


definition double_literal_stream :: "u8 list" where
  "double_literal_stream =
     [0x57, 0x41, 0x44, 0x1a, 0, 0, 0, 0x57, 0x52, 0x45, 0x4e, 0x43, 0x48, 0x30, 0x31, 0x30,
      0x01, 0xa1, 0xa2, 0xa3, 0xa4, 0x01, 0xb1, 0xb2, 0xb3, 0xb4]"

section \<open>The claims\<close>

subsection \<open>Packet length agreement\<close>

lemma rd_drop: "i < length xs - p \<Longrightarrow> rd (drop p xs) i = Inr (xs ! (p + i))"
  by (simp add: rd_def)

lemma decode_literal_pos:
  assumes "decode_literal dest s1 f = Inr (dest', src')"
  shows "pos src' = pos s1 + (if f \<noteq> 0 then unat f + 3 else 1 + (unat (buffer s1 ! pos s1) + 18))"
    and "f = 0 \<Longrightarrow> pos s1 < length (buffer s1)"
    and "\<not> (pos src' < length (buffer s1) \<and> buffer s1 ! pos src' < 0x10)"
    and "pos src' \<le> length (buffer s1)"
proof -
  from assms obtain n s2 where
    h: "(if f \<noteq> 0 then Inr (unat f + 3, s1)
         else (case read8 s1 of Inl e \<Rightarrow> Inl e | Inr (x, s) \<Rightarrow> Inr (unat x + 18, s)))
        = Inr (n, s2)"
    and c: "copy_bytes dest s2 n = Inr (dest', src')"
    and d: "\<not> (pos src' < length (buffer src') \<and> buffer src' ! pos src' < 0x10)"
    by (auto simp: decode_literal_def split: sum.splits if_splits)
  from h have s2: "buffer s2 = buffer s1"
    "pos s2 = pos s1 + (if f \<noteq> 0 then 0 else 1)"
    "n = (if f \<noteq> 0 then unat f + 3 else unat (buffer s1 ! pos s1) + 18)"
    "f = 0 \<Longrightarrow> pos s1 < length (buffer s1)"
    by (auto simp: read8_def split: if_splits)
  from h have n: "0 < n" by (auto simp: read8_def split: if_splits)
  from copy_bytes_Inr [OF c] s2 n d
  show "pos src' = pos s1 + (if f \<noteq> 0 then unat f + 3 else 1 + (unat (buffer s1 ! pos s1) + 18))"
    and "f = 0 \<Longrightarrow> pos s1 < length (buffer s1)"
    and "\<not> (pos src' < length (buffer s1) \<and> buffer s1 ! pos src' < 0x10)"
    and "pos src' \<le> length (buffer s1)"
    by (auto split: if_splits)
qed

lemma family_pos:
  assumes l: "read_length s1 f m e = Inr (n, s2)" and r2: "read2 s2 = Inr (b0, b1, s3)"
    and fp: "finish_packet dest s3 off k = Inr (dest', src')"
  shows "pos src' = pos s1 + ((if f AND m = 0 then 1 else 0) + 2)
      + unat (buffer s1 ! (pos s1 + ((if f AND m = 0 then 1 else 0) + 2) - 2) AND 3)"
    and "pos s1 + ((if f AND m = 0 then 1 else 0) + 2) \<le> length (buffer s1)"
  using read_length_Inr(1,3) [OF l] read2_Inr(1,2,3) [OF r2] finish_packet_Inr [OF fp]
  by (auto split: if_splits)


text \<open>
  Claim C2. Whenever the decoder decodes a packet that is not a pad, the number of source
  bytes it consumes, tiny literal included, is what \<open>get_wad_packet_size\<close> returns for
  the bytes that start at the packet's flag byte (with the bytes left in the buffer as
  \<open>bytes_left\<close>).
\<close>

theorem packet_length_agreement:
  assumes dec: "decode_packet (dest, src) = Inr (dest', src')"
    and np: "\<not> is_pad_packet (drop (pos src) (buffer src))"
  shows "get_wad_packet_size (drop (pos src) (buffer src)) (length (buffer src) - pos src)
    = Inr (pos src' - pos src)"
proof -
  define bs where "bs = drop (pos src) (buffer src)"
  from dec obtain f s1 where r: "read8 src = Inr (f, s1)" and
    d: "(if f < 0x10 then decode_literal dest s1 f
         else if f < 0x20 then decode_type_c dest s1 f
         else if f < 0x40 then decode_big_match dest s1 f
         else decode_little_match dest s1 f) = Inr (dest', src')"
    by (auto simp: decode_packet_def split: sum.splits)
  note r' = read8_Inr [OF r]
  have f0: "rd bs 0 = Inr f" using r' by (simp add: bs_def rd_def)
  have bs: "bs = f # drop (pos s1) (buffer s1)"
    using r' by (simp add: bs_def Cons_nth_drop_Suc)
  have mono: "f < 0x10 \<Longrightarrow> f < 0x20" "f < 0x20 \<Longrightarrow> f < 0x40"
    by (simp_all add: word_less_nat_alt)
  consider (lit) "f < 0x10" | (c) "\<not> f < 0x10" "f < 0x20"
    | (b) "\<not> f < 0x10" "\<not> f < 0x20" "f < 0x40"
    | (a) "\<not> f < 0x10" "\<not> f < 0x20" "\<not> f < 0x40"
    using mono by blast
  then show ?thesis
  proof cases
    case lit
    with d have dl: "decode_literal dest s1 f = Inr (dest', src')" by simp
    note p = decode_literal_pos [OF dl]
    show ?thesis
      using f0 lit p r' unfolding get_wad_packet_size_def bs_def [symmetric]
      by (auto simp: bs_def rd_def ac_simps split: if_splits)
  next
    case c
    with d have dc: "decode_type_c dest s1 f = Inr (dest', src')" by simp
    then obtain n s2 b0 b1 s3 where
      l: "read_length s1 f 7 7 = Inr (n, s2)" and r2: "read2 s2 = Inr (b0, b1, s3)" and
      f: "(if lookback_delta_c f b0 b1 \<noteq> 0
           then finish_packet dest s3 (int (pos dest) + lookback_delta_c f b0 b1 - 0x4000) (n + 2)
           else if n \<noteq> 1 then Inr (dest, s3\<lparr>pos := skip_pad (pos s3)\<rparr>)
           else finish_packet dest s3 (int (pos dest)) n) = Inr (dest', src')"
      by (auto simp: decode_type_c_def Let_def split: sum.splits)
    have nopad: "\<not> (lookback_delta_c f b0 b1 = 0 \<and> n \<noteq> 1)"
      using np c l r2 read_length_Inr [OF l] read2_Inr [OF r2] unfolding bs_def [symmetric] bs
      by (auto simp: is_pad_packet_def read_length_def read8_def not_less [symmetric] split: if_splits)
    with f obtain off k where fp: "finish_packet dest s3 off k = Inr (dest', src')"
      by (auto split: if_splits)
    note p = family_pos [OF l r2 fp]
    show ?thesis
      using f0 c p r' unfolding get_wad_packet_size_def bs_def [symmetric]
      by (auto simp: bs_def rd_def Let_def ac_simps split: if_splits)
  next
    case b
    with d have dc: "decode_big_match dest s1 f = Inr (dest', src')" by simp
    then obtain n s2 b0 b1 s3 off where
      l: "read_length s1 f 0x1f 0x1f = Inr (n, s2)" and r2: "read2 s2 = Inr (b0, b1, s3)" and
      fp: "finish_packet dest s3 off (n + 2) = Inr (dest', src')"
      by (auto simp: decode_big_match_def split: sum.splits)
    note p = family_pos [OF l r2 fp]
    show ?thesis
      using f0 b p r' unfolding get_wad_packet_size_def bs_def [symmetric]
      by (auto simp: bs_def rd_def Let_def ac_simps split: if_splits)
  next
    case a
    with d have dc: "decode_little_match dest s1 f = Inr (dest', src')" by simp
    then obtain b1 s2 off n where
      r1: "read8 s1 = Inr (b1, s2)" and
      fp: "finish_packet dest s2 off n = Inr (dest', src')"
      by (auto simp: decode_little_match_def split: sum.splits)
    show ?thesis
      using f0 a r' read8_Inr [OF r1] finish_packet_Inr [OF fp]
      unfolding get_wad_packet_size_def bs_def [symmetric]
      by (auto simp: bs_def rd_def Let_def ac_simps split: if_splits)
  qed
qed


theorem packet_length_agreement_witness:
  "decode_packet (\<lparr>buffer = [7], pos = 1\<rparr>, \<lparr>buffer = [0x41, 0, 0xAA], pos = 0\<rparr>)
     = Inr (\<lparr>buffer = [7, 7, 7, 7, 0xAA], pos = 5\<rparr>, \<lparr>buffer = [0x41, 0, 0xAA], pos = 3\<rparr>)
   \<and> \<not> is_pad_packet [0x41, 0, 0xAA]
   \<and> get_wad_packet_size [0x41, 0, 0xAA] 3 = Inr 3"
proof -
  let ?src = "\<lparr>buffer = [0x41, 0, 0xAA :: u8], pos = 0\<rparr>"
  have d: "decode_packet (\<lparr>buffer = [7], pos = 1\<rparr>, ?src)
     = Inr (\<lparr>buffer = [7, 7, 7, 7, 0xAA], pos = 5\<rparr>, \<lparr>buffer = [0x41, 0, 0xAA], pos = 3\<rparr>)"
    by (simp add: dec_defs stream_defs Let_def)
  have n: "\<not> is_pad_packet (drop (pos ?src) (buffer ?src))"
    by (simp add: is_pad_packet_def)
  from packet_length_agreement [OF d n] d n show ?thesis by (simp add: numeral_3_eq_3)
qed

subsection \<open>Double literals\<close>

lemma copy_bytes_enough:
  "pos src + k \<le> length (buffer src) \<Longrightarrow>
     \<exists>dest'. copy_bytes dest src k = Inr (dest', src\<lparr>pos := pos src + k\<rparr>)"
proof (induction k arbitrary: dest src)
  case 0
  then show ?case by simp
next
  case (Suc k)
  then have r: "read8 src = Inr (buffer src ! pos src, src\<lparr>pos := pos src + 1\<rparr>)"
    by (simp add: read8_def)
  from Suc.prems have "pos (src\<lparr>pos := pos src + 1\<rparr>) + k \<le> length (buffer (src\<lparr>pos := pos src + 1\<rparr>))"
    by simp
  from Suc.IH [OF this, of "write8 dest (buffer src ! pos src)"] r show ?case by simp
qed


text \<open>
  Claim C4. While the decoder runs, if the packet at the source position is a literal whose
  bytes are all there, and a further source byte exists after them and is below 0x10 (a
  second literal packet), then decoding the packet fails with \<open>DoubleLiteral\<close>, and so does
  the whole loop: the failure carries no destination buffer. The witness is a hand-made
  stream of a header and two adjacent literal packets.
\<close>

theorem double_literal_detected:
  assumes run: "pos src < total_size" "n = 0 \<or> pos dest < n"
    and flag: "pos src < length (buffer src)" "buffer src ! pos src < 0x10"
    and lit: "literal_end = pos src +
        (if buffer src ! pos src \<noteq> 0 then 1 + (unat (buffer src ! pos src) + 3)
         else 2 + (unat (buffer src ! (pos src + 1)) + 18))"
    and nxt: "literal_end < length (buffer src)" "buffer src ! literal_end < 0x10"
  shows "decode_packet (dest, src) = Inl DoubleLiteral
    \<and> decompress_loop total_size n (dest, src) = Inl DoubleLiteral"
proof -
  define f where "f = buffer src ! pos src"
  define s1 where "s1 = src\<lparr>pos := pos src + 1\<rparr>"
  have r: "read8 src = Inr (f, s1)" using flag(1) by (simp add: read8_def f_def s1_def)
  define s2 where "s2 = (if f \<noteq> 0 then s1 else s1\<lparr>pos := pos s1 + 1\<rparr>)"
  define k where "k = (if f \<noteq> 0 then unat f + 3 else unat (buffer src ! (pos src + 1)) + 18)"
  have le: "literal_end = pos s2 + k" "buffer s2 = buffer src"
    using lit by (auto simp: s2_def s1_def k_def f_def)
  have hd: "(if f \<noteq> 0 then Inr (unat f + 3, s1)
         else (case read8 s1 of Inl e \<Rightarrow> Inl e | Inr (x, s) \<Rightarrow> Inr (unat x + 18, s)))
        = Inr (k, s2)"
    using nxt(1) lit by (auto simp: read8_def s1_def s2_def k_def f_def)
  from le nxt(1) have "pos s2 + k \<le> length (buffer s2)" by simp
  from copy_bytes_enough [OF this, of dest] obtain dest' where
    c: "copy_bytes dest s2 k = Inr (dest', s2\<lparr>pos := pos s2 + k\<rparr>)" by blast
  have "decode_literal dest s1 f = Inl DoubleLiteral"
    unfolding decode_literal_def hd using c nxt le by simp
  then have d: "decode_packet (dest, src) = Inl DoubleLiteral"
    using r flag(2) by (simp add: decode_packet_def f_def)
  moreover have "decompress_loop total_size n (dest, src) = Inl DoubleLiteral"
    using run d by (subst decompress_loop.simps) auto
  ultimately show ?thesis by simp
qed

theorem double_literal_detected_witness:
  "decompress_wad empty_stream \<lparr>buffer = double_literal_stream, pos = 0\<rparr> = Inl DoubleLiteral"
proof -
  let ?src = "\<lparr>buffer = double_literal_stream, pos = 16\<rparr>"
  have "decompress_loop 26 0 (empty_stream, ?src) = Inl DoubleLiteral"
    using double_literal_detected [of ?src 26 0 empty_stream 21]
    by (simp add: double_literal_stream_def)
  then show ?thesis
    by (simp add: decompress_wad_def decompress_wad_n_def read_header_def validate_wad_def
        le32_def seek_def double_literal_stream_def)
qed


subsection \<open>The packets with flag bytes 0x10 to 0x1f in the decoder\<close>

lemma skip_pad_next:
  "skip_pad p < p + 0x1000"
proof -
  have "\<And>q. q mod 0x1000 = (0x10::nat) \<Longrightarrow> p \<le> q \<Longrightarrow> skip_pad p \<le> q"
  proof -
    fix q :: nat
    show "q mod 0x1000 = 0x10 \<Longrightarrow> p \<le> q \<Longrightarrow> skip_pad p \<le> q"
    proof (induction p rule: skip_pad.induct)
      case (1 p)
      show ?case
      proof (cases "p mod 0x1000 \<noteq> 0x10")
        case True
        with "1.prems" have "p \<noteq> q" by auto
        with "1.prems" have "p + 1 \<le> q" by simp
        from "1.IH" [OF True "1.prems"(1) this] True show ?thesis
          by (subst skip_pad.simps) simp
      next
        case False
        then show ?thesis using "1.prems" by (subst skip_pad.simps) simp
      qed
    qed
  qed
  note least = this
  define q where "q = (if p mod 0x1000 \<le> 0x10 then p - p mod 0x1000 + 0x10
                       else p - p mod 0x1000 + 0x1010)"
  have pm: "p - p mod 0x1000 = 0x1000 * (p div 0x1000)"
    by (simp add: minus_mod_eq_mult_div)
  have "q mod 0x1000 = 0x10" by (simp add: q_def pm)
  moreover have "p \<le> q" "q < p + 0x1000"
    using mod_less_divisor [of "0x1000" p] mod_less_eq_dividend [of p "0x1000"]
    by (auto simp: q_def simp del: mod_less_divisor)
  ultimately show ?thesis using least [of q] by simp
qed


text \<open>
  Claim C5, as amended. For a packet with a flag byte in 0x10 to 0x1f whose length field
  and two position bytes can be read:
  \<^item> if the lookback equals \<open>dest.pos\<close> and the length field is not 1, the packet is a pad:
    nothing is written, and the source position moves to the next position that is 0x10
    modulo 0x1000;
  \<^item> if the lookback equals \<open>dest.pos\<close> and the length field is 1 (the dummy packet 0x11),
    nothing is copied from the destination and the source position is not aligned: only
    the tiny literal, of the length in the low two bits of the first position byte, is
    copied from the source;
  \<^item> otherwise the length field plus 2 bytes are copied from the lookback minus 0x4000,
    and then the tiny literal.
\<close>

theorem type_c_packet_rule:
  assumes "read8 src = Inr (flag_byte, src1)" and "\<not> flag_byte < 0x10" and "flag_byte < 0x20"
    and "read_length src1 flag_byte 7 7 = Inr (bytes_to_copy, src2)"
    and "read2 src2 = Inr (b0, b1, src3)"
  shows "(lookback_delta_c flag_byte b0 b1 = 0 \<and> bytes_to_copy \<noteq> 1 \<longrightarrow>
            decode_packet (dest, src) = Inr (dest, src3\<lparr>pos := skip_pad (pos src3)\<rparr>)
            \<and> skip_pad (pos src3) mod 0x1000 = 0x10
            \<and> pos src3 \<le> skip_pad (pos src3) \<and> skip_pad (pos src3) < pos src3 + 0x1000)
       \<and> (lookback_delta_c flag_byte b0 b1 = 0 \<and> bytes_to_copy = 1 \<longrightarrow>
            decode_packet (dest, src) = copy_bytes dest src3 (unat (b0 AND 3)))
       \<and> (lookback_delta_c flag_byte b0 b1 \<noteq> 0 \<longrightarrow>
            decode_packet (dest, src) =
              (case copy_lookback dest
                      (int (pos dest) + lookback_delta_c flag_byte b0 b1 - 0x4000)
                      (bytes_to_copy + 2) of
                 Inl e \<Rightarrow> Inl e
               | Inr dest' \<Rightarrow> copy_bytes dest' src3 (unat (b0 AND 3))))"
proof -
  have d: "decode_packet (dest, src) = decode_type_c dest src1 flag_byte"
    using assms(1-3) by (simp add: decode_packet_def)
  have pk: "peek8_at src3 (pos src3 - 2) = Inr b0"
    using read2_Inr [OF assms(5)] by (simp add: peek8_at_def)
  have fin: "\<And>d off k. finish_packet d src3 off k =
      (case (if k \<noteq> 1 then copy_lookback d off k else Inr d) of
         Inl e \<Rightarrow> Inl e
       | Inr dest' \<Rightarrow> copy_bytes dest' src3 (unat (b0 AND 3)))"
    unfolding finish_packet_def pk by (auto simp: Let_def split: sum.splits)
  have c: "decode_type_c dest src1 flag_byte =
      (if lookback_delta_c flag_byte b0 b1 \<noteq> 0
       then finish_packet dest src3 (int (pos dest) + lookback_delta_c flag_byte b0 b1 - 0x4000)
              (bytes_to_copy + 2)
       else if bytes_to_copy \<noteq> 1 then Inr (dest, src3\<lparr>pos := skip_pad (pos src3)\<rparr>)
       else finish_packet dest src3 (int (pos dest)) bytes_to_copy)"
    unfolding decode_type_c_def by (simp only: assms(4,5) sum.case prod.case Let_def)
  have pad: "lookback_delta_c flag_byte b0 b1 = 0 \<and> bytes_to_copy \<noteq> 1 \<longrightarrow>
      decode_packet (dest, src) = Inr (dest, src3\<lparr>pos := skip_pad (pos src3)\<rparr>)
      \<and> skip_pad (pos src3) mod 0x1000 = 0x10
      \<and> pos src3 \<le> skip_pad (pos src3) \<and> skip_pad (pos src3) < pos src3 + 0x1000"
    using skip_pad_aligned [of "pos src3"] skip_pad_ge [of "pos src3"]
      skip_pad_next [of "pos src3"]
    unfolding d c by simp
  have dummy: "lookback_delta_c flag_byte b0 b1 = 0 \<and> bytes_to_copy = 1 \<longrightarrow>
      decode_packet (dest, src) = copy_bytes dest src3 (unat (b0 AND 3))"
    unfolding d c fin by simp
  have "bytes_to_copy + 2 \<noteq> 1" by simp
  then have match: "lookback_delta_c flag_byte b0 b1 \<noteq> 0 \<longrightarrow>
      decode_packet (dest, src) =
        (case copy_lookback dest
                (int (pos dest) + lookback_delta_c flag_byte b0 b1 - 0x4000)
                (bytes_to_copy + 2) of
           Inl e \<Rightarrow> Inl e
         | Inr dest' \<Rightarrow> copy_bytes dest' src3 (unat (b0 AND 3)))"
    unfolding d c fin by (intro impI) (simp only: if_True if_False simp_thms not_False_eq_True)
  from pad dummy match show ?thesis by (intro conjI)
qed

theorem type_c_packet_rule_witness:
  "decode_packet (empty_stream, \<lparr>buffer = [0x12, 0, 0, 0xee, 0xee], pos = 0\<rparr>)
      = Inr (empty_stream, \<lparr>buffer = [0x12, 0, 0, 0xee, 0xee], pos = skip_pad 3\<rparr>)
   \<and> skip_pad 3 = 0x10
   \<and> decode_packet (empty_stream, \<lparr>buffer = [0x11, 2, 0, 0xa1, 0xa2], pos = 0\<rparr>)
      = Inr (\<lparr>buffer = [0xa1, 0xa2], pos = 2\<rparr>, \<lparr>buffer = [0x11, 2, 0, 0xa1, 0xa2], pos = 5\<rparr>)
   \<and> decode_packet (empty_stream, \<lparr>buffer = [0x12, 4, 0], pos = 0\<rparr>) = Inl BadLookback"
proof -
  let ?pad = "\<lparr>buffer = [0x12, 0, 0, 0xee, 0xee::u8], pos = 0\<rparr>"
  let ?dummy = "\<lparr>buffer = [0x11, 2, 0, 0xa1, 0xa2::u8], pos = 0\<rparr>"
  let ?match = "\<lparr>buffer = [0x12, 4, 0::u8], pos = 0\<rparr>"
  have p: "decode_packet (empty_stream, ?pad) = Inr (empty_stream, ?pad\<lparr>pos := skip_pad 3\<rparr>)
      \<and> skip_pad 3 mod 0x1000 = 0x10 \<and> 3 \<le> skip_pad 3 \<and> skip_pad 3 < 3 + 0x1000"
    using type_c_packet_rule [of ?pad "0x12" "?pad\<lparr>pos := 1\<rparr>" 2 "?pad\<lparr>pos := 1\<rparr>"
        0 0 "?pad\<lparr>pos := 3\<rparr>" empty_stream]
    by (simp add: read8_def read_length_def read2_def lookback_delta_c_def)
  have sp: "skip_pad 3 = 0x10"
    by (simp add: skip_pad.simps)
  have d: "decode_packet (empty_stream, ?dummy)
      = copy_bytes empty_stream (?dummy\<lparr>pos := 3\<rparr>) (unat (2 AND 3 :: u8))"
    using type_c_packet_rule [of ?dummy "0x11" "?dummy\<lparr>pos := 1\<rparr>" 1 "?dummy\<lparr>pos := 1\<rparr>"
        2 0 "?dummy\<lparr>pos := 3\<rparr>" empty_stream]
    by (simp add: read8_def read_length_def read2_def lookback_delta_c_def)
  have m: "decode_packet (empty_stream, ?match)
      = (case copy_lookback empty_stream (int (pos empty_stream) + lookback_delta_c 0x12 4 0 - 0x4000) (2 + 2) of
           Inl e \<Rightarrow> Inl e
         | Inr dest' \<Rightarrow> copy_bytes dest' (?match\<lparr>pos := 3\<rparr>) (unat (4 AND 3 :: u8)))"
    using type_c_packet_rule [of ?match "0x12" "?match\<lparr>pos := 1\<rparr>" 2 "?match\<lparr>pos := 1\<rparr>"
        4 0 "?match\<lparr>pos := 3\<rparr>" empty_stream]
    by (simp add: read8_def read_length_def read2_def lookback_delta_c_def)
  have d': "copy_bytes empty_stream (?dummy\<lparr>pos := 3\<rparr>) (unat (2 AND 3 :: u8))
      = Inr (\<lparr>buffer = [0xa1, 0xa2], pos = 2\<rparr>, ?dummy\<lparr>pos := 5\<rparr>)"
    by (simp add: copy_bytes_unfold read8_def write8_def empty_stream_def Let_def)
  have m': "copy_lookback empty_stream
      (int (pos empty_stream) + lookback_delta_c 0x12 4 0 - 0x4000) (2 + 2) = Inl BadLookback"
    by (simp add: copy_lookback_unfold lookback_delta_c_def empty_stream_def)
  show ?thesis using p sp d m unfolding d' m' by simp
qed


text \<open>
  Claim C5 as stated fails on the dummy packet: its lookback equals \<open>dest.pos\<close>, yet it is
  not treated as a pad. A byte is written to the destination and the source position
  stops right after the tiny literal, at 20, which is not 0x10 modulo 0x1000.
\<close>

theorem pad_rule_counterexample:
  "lookback_delta_c 0x11 0x01 0x00 = 0
   \<and> decode_packet (empty_stream, \<lparr>buffer = wad_header_bytes @ [0x11, 0x01, 0x00, 0xAA], pos = 16\<rparr>)
       = Inr (\<lparr>buffer = [0xAA], pos = 1\<rparr>,
              \<lparr>buffer = wad_header_bytes @ [0x11, 0x01, 0x00, 0xAA], pos = 20\<rparr>)
   \<and> (20::nat) mod 0x1000 \<noteq> 0x10"
  by (simp add: dec_defs stream_defs wad_header_bytes_def Let_def)

subsection \<open>Progress of the walk over a block\<close>

text \<open>
  Claim C10. Whenever \<open>get_wad_packet_size\<close> returns, it returns at least 2, whatever the
  flag byte; so every iteration of the walk over an intermediate block moves the position
  in the block strictly forward, and never beyond its end. The walk itself,
  \<open>stitch_block\<close>, is a total function: its termination is proved from this bound, with
  the bytes left in the block as the measure.
\<close>

theorem packet_size_progress:
  "(get_wad_packet_size src bytes_left = Inr n \<longrightarrow> 2 \<le> n)
   \<and> (stitch_packet i dest im = Inr (dest', im') \<longrightarrow>
        pos im < pos im' \<and> pos im' \<le> length (buffer im) \<and> buffer im' = buffer im)"
  using get_wad_packet_size_ge2 stitch_packet_Inr by blast

theorem packet_size_progress_witness:
  "get_wad_packet_size [0x11, 1, 0, 0xAA] 4 = Inr 4 \<and> (2::nat) \<le> 4
   \<and> stitch_packet 0 \<lparr>buffer = wad_header_bytes, pos = 16\<rparr> \<lparr>buffer = [0x11, 1, 0, 0xAA], pos = 0\<rparr>
       = Inr (\<lparr>buffer = wad_header_bytes @ [0x11, 1, 0, 0xAA], pos = 20\<rparr>,
              \<lparr>buffer = [0x11, 1, 0, 0xAA], pos = 4\<rparr>)
   \<and> (0::nat) < 4"
proof -
  have g: "get_wad_packet_size [0x11, 1, 0, 0xAA] 4 = Inr 4"
    by (simp add: get_wad_packet_size_def rd_def Let_def)
  have p: "stitch_packet 0 \<lparr>buffer = wad_header_bytes, pos = 16\<rparr>
       \<lparr>buffer = [0x11, 1, 0, 0xAA], pos = 0\<rparr>
     = Inr (\<lparr>buffer = wad_header_bytes @ [0x11, 1, 0, 0xAA], pos = 20\<rparr>,
            \<lparr>buffer = [0x11, 1, 0, 0xAA], pos = 4\<rparr>)"
    by (simp add: stitch_packet_def get_wad_packet_size_def rd_def src_range_def Let_def)
  from packet_size_progress [of "[0x11, 1, 0, 0xAA]" 4 4 0
      "\<lparr>buffer = wad_header_bytes, pos = 16\<rparr>" "\<lparr>buffer = [0x11, 1, 0, 0xAA], pos = 0\<rparr>"
      "\<lparr>buffer = wad_header_bytes @ [0x11, 1, 0, 0xAA], pos = 20\<rparr>"
      "\<lparr>buffer = [0x11, 1, 0, 0xAA], pos = 4\<rparr>"] g p
  show ?thesis by simp
qed


subsection \<open>The single short literal\<close>

lemma single_byte_intermediate:
  "compress_wad_intermediate [0xAA] 0 (Suc 0) = Inr [0x11, 1, 0, 0xAA]"
  by (simp add: enc_defs consts_defs stream_defs Let_def)

lemma single_byte_stitch:
  "stitch_block 0 \<lparr>buffer = wad_header_bytes, pos = 16\<rparr> \<lparr>buffer = [0x11, 1, 0, 0xAA], pos = 0\<rparr>
     = Inr \<lparr>buffer = wad_header_bytes @ [0x11, 1, 0, 0xAA], pos = 20\<rparr>"
proof -
  have p: "stitch_packet 0 \<lparr>buffer = wad_header_bytes, pos = 16\<rparr>
       \<lparr>buffer = [0x11, 1, 0, 0xAA], pos = 0\<rparr>
     = Inr (\<lparr>buffer = wad_header_bytes @ [0x11, 1, 0, 0xAA], pos = 20\<rparr>,
            \<lparr>buffer = [0x11, 1, 0, 0xAA], pos = 4\<rparr>)"
    by (simp add: stitch_packet_def get_wad_packet_size_def rd_def src_range_def Let_def)
  show ?thesis
    by (subst stitch_block.simps, simp add: p, subst stitch_block.simps, simp)
qed

lemma write_header:
  "write_n (seek empty_stream 0) wad_header_bytes = \<lparr>buffer = wad_header_bytes, pos = 16\<rparr>"
  by (simp add: wad_header_bytes_def stream_defs Let_def)


lemma single_byte_compress:
  "compress_wad empty_stream \<lparr>buffer = [0xAA], pos = 0\<rparr> 1 =
     Inr \<lparr>buffer = [0x57, 0x41, 0x44, 0x14, 0x00, 0x00, 0x00,
                      0x57, 0x52, 0x45, 0x4e, 0x43, 0x48, 0x30, 0x31, 0x30,
                      0x11, 0x01, 0x00, 0xAA], pos = 7\<rparr>"
proof -
  have b: "compress_blocks [0xAA] (Suc 0) = Inr [[0x11, 1, 0, 0xAA]]"
    by (simp add: compress_blocks_def single_byte_intermediate)
  have "compress_wad empty_stream \<lparr>buffer = [0xAA], pos = 0\<rparr> 1 =
     Inr (write_u32 (seek \<lparr>buffer = wad_header_bytes @ [0x11, 1, 0, 0xAA], pos = 20\<rparr> 3) 20)"
    by (simp add: compress_wad_def b write_header single_byte_stitch del: write_n.simps)
  then show ?thesis
    by (simp add: write_u32_def wad_header_bytes_def stream_defs Let_def)
qed

text \<open>
  Claim C6. Compressing the single byte 0xAA with one thread gives the 16-byte header,
  the dummy packet with the tiny-literal length 1 in its second byte (0x11 0x01 0x00),
  and the byte 0xAA: 20 bytes, and the \<open>total_size\<close> field (bytes 3 to 6) holds 20.
\<close>

theorem single_short_literal:
  "compress_wad empty_stream \<lparr>buffer = [0xAA], pos = 0\<rparr> 1 =
     Inr \<lparr>buffer = wad_header_bytes[3 := 0x14] @ [0x11, 0x01, 0x00, 0xAA], pos = 7\<rparr>
   \<and> length (wad_header_bytes[3 := 0x14] @ [0x11, 0x01, 0x00, 0xAA :: u8]) = 20
   \<and> le32 (take 4 (drop 3 (wad_header_bytes[3 := 0x14] @ [0x11, 0x01, 0x00, 0xAA]))) = 20"
  by (simp add: single_byte_compress wad_header_bytes_def le32_def)

subsection \<open>The thread count\<close>







subsection \<open>The total size in the header\<close>

lemma length_write8: "length (buffer (write8 s b)) = max (length (buffer s)) (pos s + 1)"
  by (simp add: write8_def Let_def max_def)

lemma write_n_length:
  "pos (write_n s bs) = pos s + length bs
   \<and> length (buffer (write_n s bs)) = (if bs = [] then length (buffer s)
        else max (length (buffer s)) (pos s + length bs))"
  by (induction bs arbitrary: s) (auto simp: length_write8 max_def)

definition at_end :: "array_stream \<Rightarrow> bool" where
  "at_end s = (pos s = length (buffer s))"

lemma at_end_write8: "at_end s \<Longrightarrow> at_end (write8 s b)"
  by (simp add: at_end_def length_write8)

lemma pad_fill_at_end: "at_end d \<Longrightarrow> at_end (pad_fill d)"
proof (induction d rule: pad_fill.induct)
  case (1 dest)
  show ?case
  proof (cases "pos dest mod 0x2000 \<noteq> 0x10")
    case True
    from "1.IH" [OF True at_end_write8 [OF "1.prems"]] True show ?thesis
      by (subst pad_fill.simps) simp
  next
    case False
    then show ?thesis using "1.prems" by (subst pad_fill.simps) simp
  qed
qed

lemma stitch_packet_at_end:
  assumes "stitch_packet i dest im = Inr (dest', im')" and "at_end dest"
  shows "at_end dest'"
proof -
  from assms(1) obtain n bytes d2 where
    r: "src_range (buffer im) (pos im) n = Inr bytes" and
    d: "dest' = d2\<lparr>buffer := buffer d2 @ bytes, pos := pos d2 + n\<rparr>" and
    e: "d2 = (let d1 = (if ((pos dest + 0x1ff0) mod 0x2000) + (if i \<noteq> 0 \<and> pos im = 0 then n + 3 else n) > 0x2000 - 3
                        then pad_fill (write8 (write8 (write8 dest 0x12) 0x0) 0x0)
                        else dest)
              in if i \<noteq> 0 \<and> pos im = 0 then write8 (write8 (write8 d1 0x11) 0) 0 else d1)"
    by (auto simp: stitch_packet_def Let_def split: sum.splits)
  from r have l: "length bytes = n" by (auto simp: src_range_def split: if_splits)
  have "at_end d2"
    unfolding e Let_def using assms(2)
    by (auto intro!: at_end_write8 pad_fill_at_end)
  then show ?thesis unfolding d using l by (simp add: at_end_def)
qed

lemma stitch_block_at_end:
  "stitch_block i dest im = Inr dest' \<Longrightarrow> at_end dest \<Longrightarrow> at_end dest'"
proof (induction i dest im rule: stitch_block.induct)
  case (1 i dest im)
  show ?case
  proof (cases "pos im < length (buffer im)")
    case True
    with "1.prems"(1) obtain d1 im1 where
      p: "stitch_packet i dest im = Inr (d1, im1)" and
      r: "stitch_block i d1 im1 = Inr dest'"
      by (subst (asm) stitch_block.simps) (auto split: sum.splits)
    from "1.IH" [OF True p refl r stitch_packet_at_end [OF p "1.prems"(2)]] show ?thesis .
  next
    case False
    with "1.prems" show ?thesis by (subst (asm) stitch_block.simps) simp
  qed
qed

lemma stitch_all_at_end:
  "stitch_all dest i bs = Inr dest' \<Longrightarrow> at_end dest \<Longrightarrow> at_end dest'"
proof (induction bs arbitrary: dest i)
  case Nil
  then show ?case by simp
next
  case (Cons b bs)
  from Cons.prems(1) obtain d1 where
    s: "stitch_block i dest \<lparr>buffer = b, pos = 0\<rparr> = Inr d1" and
    r: "stitch_all d1 (i + 1) bs = Inr dest'"
    by (auto split: sum.splits)
  from Cons.IH [OF r stitch_block_at_end [OF s Cons.prems(2)]] show ?case .
qed

text \<open>The length of the destination never decreases while blocks are stitched.\<close>

lemma pad_fill_length: "length (buffer d) \<le> length (buffer (pad_fill d))"
proof (induction d rule: pad_fill.induct)
  case (1 dest)
  show ?case
  proof (cases "pos dest mod 0x2000 \<noteq> 0x10")
    case True
    from "1.IH" [OF True] True show ?thesis
      by (subst pad_fill.simps) (simp add: length_write8)
  next
    case False
    then show ?thesis by (subst pad_fill.simps) simp
  qed
qed

lemma stitch_packet_length:
  assumes "stitch_packet i dest im = Inr (dest', im')"
  shows "length (buffer dest) \<le> length (buffer dest')"
proof -
  have w: "\<And>d a b c. length (buffer d) \<le> length (buffer (write8 (write8 (write8 d a) b) c))"
    by (simp add: length_write8)
  have p: "\<And>d. length (buffer d) \<le> length (buffer (pad_fill (write8 (write8 (write8 d 0x12) 0x0) 0x0)))"
    using w pad_fill_length order_trans by blast
  from assms obtain n bytes d2 where
    d: "dest' = d2\<lparr>buffer := buffer d2 @ bytes, pos := pos d2 + n\<rparr>" and
    e: "d2 = (let d1 = (if ((pos dest + 0x1ff0) mod 0x2000) + (if i \<noteq> 0 \<and> pos im = 0 then n + 3 else n) > 0x2000 - 3
                        then pad_fill (write8 (write8 (write8 dest 0x12) 0x0) 0x0)
                        else dest)
              in if i \<noteq> 0 \<and> pos im = 0 then write8 (write8 (write8 d1 0x11) 0) 0 else d1)"
    by (auto simp: stitch_packet_def Let_def split: sum.splits)
  have "length (buffer dest) \<le> length (buffer d2)"
    unfolding e Let_def using p [of dest] w
    by (auto intro: order_trans)
  then show ?thesis unfolding d by simp
qed

lemma stitch_block_length:
  "stitch_block i dest im = Inr dest' \<Longrightarrow> length (buffer dest) \<le> length (buffer dest')"
proof (induction i dest im rule: stitch_block.induct)
  case (1 i dest im)
  show ?case
  proof (cases "pos im < length (buffer im)")
    case True
    with "1.prems"(1) obtain d1 im1 where
      p: "stitch_packet i dest im = Inr (d1, im1)" and
      r: "stitch_block i d1 im1 = Inr dest'"
      by (subst (asm) stitch_block.simps) (auto split: sum.splits)
    from "1.IH" [OF True p refl r] stitch_packet_length [OF p] show ?thesis by simp
  next
    case False
    with "1.prems" show ?thesis by (subst (asm) stitch_block.simps) simp
  qed
qed

lemma stitch_all_length:
  "stitch_all dest i bs = Inr dest' \<Longrightarrow> length (buffer dest) \<le> length (buffer dest')"
proof (induction bs arbitrary: dest i)
  case Nil
  then show ?case by simp
next
  case (Cons b bs)
  from Cons.prems(1) obtain d1 where
    s: "stitch_block i dest \<lparr>buffer = b, pos = 0\<rparr> = Inr d1" and
    r: "stitch_all d1 (i + 1) bs = Inr dest'"
    by (auto split: sum.splits)
  from Cons.IH [OF r] stitch_block_length [OF s] show ?case by simp
qed


lemma le32_bytes:
  fixes v :: "32 word"
  shows "le32 [ucast v, ucast (drop_bit 8 v), ucast (drop_bit 16 v), ucast (drop_bit 24 v)] = unat v"
proof -
  define n where "n = unat v"
  have n: "n < 2 ^ 32" using unsigned_less [of v, where 'a = nat] by (simp add: n_def)
  have b0: "unat (ucast v :: u8) = n mod 256"
    by (simp add: n_def unsigned_ucast_eq take_bit_eq_mod)
  have b1: "unat (ucast (drop_bit 8 v) :: u8) = (n div 256) mod 256"
    by (simp add: n_def unsigned_ucast_eq unat_drop_bit_eq drop_bit_eq_div take_bit_eq_mod unat_div_distrib)
  have b2: "unat (ucast (drop_bit 16 v) :: u8) = (n div 65536) mod 256"
    by (simp add: n_def unsigned_ucast_eq unat_drop_bit_eq drop_bit_eq_div take_bit_eq_mod unat_div_distrib)
  have b3: "unat (ucast (drop_bit 24 v) :: u8) = (n div 16777216) mod 256"
    by (simp add: n_def unsigned_ucast_eq unat_drop_bit_eq drop_bit_eq_div take_bit_eq_mod unat_div_distrib)
  define a where "a = n div 256"
  define b where "b = a div 256"
  define c where "c = b div 256"
  have d1: "n div 65536 = b" by (simp add: a_def b_def div_mult2_eq [symmetric])
  have d2: "n div 16777216 = c" by (simp add: a_def b_def c_def div_mult2_eq [symmetric])
  have top: "c < 256" using n by (simp add: a_def b_def c_def div_mult2_eq [symmetric])
  have e1: "n = n mod 256 + 256 * a" by (simp add: a_def)
  have e2: "a = a mod 256 + 256 * b" by (simp add: b_def)
  have e3: "b = b mod 256 + 256 * c" by (simp add: c_def)
  have "n mod 256 + 0x100 * (a mod 256) + 0x10000 * (b mod 256) + 0x1000000 * (c mod 256) = n"
    using top e1 e2 e3 by (simp add: mod_less) 
  then show ?thesis
    unfolding le32_def n_def [symmetric] by (simp add: b0 b1 b2 b3 d1 d2 a_def [symmetric])
qed


lemma write_u32_patch:
  assumes "7 \<le> length (buffer d)"
  shows "length (buffer (write_u32 (seek d 3) v)) = length (buffer d)"
    and "take 4 (drop 3 (buffer (write_u32 (seek d 3) v)))
      = [ucast v, ucast (drop_bit 8 v), ucast (drop_bit 16 v), ucast (drop_bit 24 v)]"
proof -
  define bs where "bs = buffer d"
  have w: "buffer (write_u32 (seek d 3) v)
      = bs[3 := ucast v, 4 := ucast (drop_bit 8 v), 5 := ucast (drop_bit 16 v),
           6 := ucast (drop_bit 24 v)]"
    using assms by (simp add: write_u32_def seek_def write8_def Let_def bs_def)
  show "length (buffer (write_u32 (seek d 3) v)) = length (buffer d)"
    unfolding w by (simp add: bs_def)
  have l: "7 \<le> length bs" using assms by (simp add: bs_def)
  show "take 4 (drop 3 (buffer (write_u32 (seek d 3) v)))
      = [ucast v, ucast (drop_bit 8 v), ucast (drop_bit 16 v), ucast (drop_bit 24 v)]"
    unfolding w using l
    by (simp add: list_eq_iff_nth_eq nth_list_update) (auto simp: less_Suc_eq numeral_nat)
qed


text \<open>
  Claim C3. The last step of \<open>compress_wad\<close> writes the position reached after all packets,
  pads and dummies into bytes 3 to 6 of the header. For a destination that starts out no
  longer than a header (an empty one in particular), and an output shorter than \<open>2^32\<close>
  bytes (the field is 32 bits wide), the little-endian value of these four bytes is the
  length of the output.
\<close>

theorem header_consistency:
  assumes c: "compress_wad dest src thread_count = Inr out"
    and d: "length (buffer dest) \<le> 0x10"
    and fits: "length (buffer out) < 2 ^ 32"
  shows "le32 (take 4 (drop 3 (buffer out))) = length (buffer out)"
proof -
  define dest1 where "dest1 = write_n (seek dest 0) wad_header_bytes"
  from c obtain ims dest2 where
    s: "stitch_all dest1 0 ims = Inr dest2" and
    o: "out = write_u32 (seek dest2 3) (of_nat (pos dest2))"
    by (auto simp: compress_wad_def Let_def dest1_def split: if_splits sum.splits)
  have "pos dest1 = 0x10 \<and> length (buffer dest1) = 0x10"
    using write_n_length [of "seek dest 0" wad_header_bytes] d
    by (simp add: dest1_def seek_def wad_header_bytes_def)
  then have e1: "at_end dest1" and l1: "0x10 \<le> length (buffer dest1)"
    by (simp_all add: at_end_def)
  from stitch_all_at_end [OF s e1] have e2: "pos dest2 = length (buffer dest2)"
    by (simp add: at_end_def)
  from stitch_all_length [OF s] l1 have l2: "7 \<le> length (buffer dest2)" by simp
  note p = write_u32_patch [OF l2, of "of_nat (pos dest2)"]
  have len: "length (buffer out) = length (buffer dest2)" unfolding o by (rule p(1))
  have "le32 (take 4 (drop 3 (buffer out))) = unat (of_nat (pos dest2) :: 32 word)"
    unfolding o p(2) by (rule le32_bytes)
  also have "\<dots> = length (buffer dest2)"
    using fits unfolding len e2 by (simp add: unat_of_nat)
  finally show ?thesis unfolding len .
qed


theorem header_consistency_witness:
  "length (buffer empty_stream) \<le> 0x10
   \<and> le32 (take 4 (drop 3 [0x57, 0x41, 0x44, 0x14, 0x00, 0x00, 0x00,
                      0x57, 0x52, 0x45, 0x4e, 0x43, 0x48, 0x30, 0x31, 0x30,
                      0x11, 0x01, 0x00, 0xAA])) = 20"
proof -
  have d: "length (buffer empty_stream) \<le> 0x10" by (simp add: empty_stream_def)
  from header_consistency [OF single_byte_compress d] d show ?thesis by simp
qed


subsection \<open>The match finder without a match\<close>

text \<open>
  A source for which the match finder finds nothing: 252 bytes 0xFF, then the bytes
  0, 1, 0, 2, 0, 3, ... in which no pair of adjacent bytes occurs twice.
\<close>

definition nomatch_value :: "nat \<Rightarrow> nat" where
  "nomatch_value i = (if even i then 0 else (i + 1) div 2)"

definition nomatch_src :: "u8 list" where
  "nomatch_src = replicate 252 0xFF @ map (\<lambda>i. of_nat (nomatch_value i)) [0..<276]"

text \<open>The innermost loop of the match finder on a run of equal bytes.\<close>

lemma count_equal_run:
  assumes "\<forall>k. k0 \<le> k \<and> k < n \<longrightarrow>
      target + k < length src \<and> j + k < length src \<and> src ! (target + k) = src ! (j + k)"
    and "k0 \<le> n" and "n \<le> mx"
    and "n < mx \<longrightarrow>
      target + n < length src \<and> j + n < length src \<and> src ! (target + n) \<noteq> src ! (j + n)"
  shows "count_equal src target j mx k0 = Inr n"
  using assms(1,2)
proof (induction "n - k0" arbitrary: k0)
  case 0
  then have "k0 = n" by simp
  then show ?case using assms(3,4) by (subst count_equal.simps) (auto simp: rd_def)
next
  case (Suc d)
  then have lt: "k0 < n" by simp
  with Suc.prems have r: "target + k0 < length src" "j + k0 < length src"
    "src ! (target + k0) = src ! (j + k0)" by auto
  have "count_equal src target j mx (k0 + 1) = Inr n"
    using Suc.hyps(2) Suc.prems lt by (intro Suc.hyps(1)) auto
  then show ?case
    using lt assms(3) r by (subst count_equal.simps) (simp add: rd_def)
qed

text \<open>A window in which no two-byte prefix equals the one at the target is skipped whole.\<close>

lemma scan_window_no_prefix:
  assumes "\<forall>j. lo \<le> j \<and> j < target \<longrightarrow>
             j + 1 < length src \<and> (src ! j, src ! (j + 1)) \<noteq> (src ! target, src ! (target + 1))"
    and "target + 1 < length src"
  shows "scan_window False src target mx lo m = Inr m"
  using assms(1)
proof (induction "target - lo" arbitrary: lo)
  case 0
  then show ?case by (subst scan_window.simps) simp
next
  case (Suc n)
  then have lt: "lo < target" by simp
  with Suc.prems have j: "lo + 1 < length src"
    "(src ! lo, src ! (lo + 1)) \<noteq> (src ! target, src ! (target + 1))" by auto
  have "n = target - (lo + 1)" using Suc.hyps(2) by simp
  moreover have "\<forall>j. lo + 1 \<le> j \<and> j < target \<longrightarrow>
      j + 1 < length src \<and> (src ! j, src ! (j + 1)) \<noteq> (src ! target, src ! (target + 1))"
    using Suc.prems by simp
  ultimately have "scan_window False src target mx (lo + 1) m = Inr m" by (rule Suc.hyps(1))
  then show ?case
    using lt j assms(2) by (subst scan_window.simps) (simp add: rd16_def)
qed

lemma find_match_loop_no_prefix:
  assumes "\<forall>t j. src_pos + i \<le> t \<and> t < src_pos + mx \<and> j < t \<longrightarrow>
             (src ! j, src ! (j + 1)) \<noteq> (src ! t, src ! (t + 1))"
    and "src_pos + mx < length src" and "match_size m < 3"
  shows "find_match_loop False src src_pos src_end mx i m = Inr m"
  using assms(1)
proof (induction "mx - i" arbitrary: i)
  case 0
  then show ?case by (subst find_match_loop.simps) simp
next
  case (Suc n)
  then have lt: "i < mx" by simp
  have "scan_window False src (src_pos + i) MAX_MATCH_SIZE
      (sub_clamped (src_pos + i) MAX_BIGGER_MATCH_LOOKBACK) m = Inr m"
  proof (rule scan_window_no_prefix)
    show "src_pos + i + 1 < length src" using lt assms(2) by simp
    show "\<forall>j. sub_clamped (src_pos + i) MAX_BIGGER_MATCH_LOOKBACK \<le> j \<and> j < src_pos + i \<longrightarrow>
        j + 1 < length src \<and>
        (src ! j, src ! (j + 1)) \<noteq> (src ! (src_pos + i), src ! (src_pos + i + 1))"
      using Suc.prems lt assms(2) by auto
  qed
  moreover have "find_match_loop False src src_pos src_end mx (i + 1) m = Inr m"
  proof (rule Suc.hyps(1))
    show "n = mx - (i + 1)" using Suc.hyps(2) by simp
    show "\<forall>t j. src_pos + (i + 1) \<le> t \<and> t < src_pos + mx \<and> j < t \<longrightarrow>
        (src ! j, src ! (j + 1)) \<noteq> (src ! t, src ! (t + 1))"
      using Suc.prems by simp
  qed
  ultimately show ?case
    using lt assms(3) by (subst find_match_loop.simps) (simp add: Let_def)
qed


lemma nomatch_src_length: "length nomatch_src = 528"
  by (simp add: nomatch_src_def)

lemma nomatch_src_nth:
  "k < 528 \<Longrightarrow> nomatch_src ! k =
     (if k < 252 then 0xFF else of_nat (nomatch_value (k - 252)))"
proof -
  assume k: "k < 528"
  show ?thesis
  proof (cases "k < 252")
    case True
    then show ?thesis by (simp add: nomatch_src_def nth_append)
  next
    case False
    with k have "k - 252 < 276" by simp
    then have "[0..<276] ! (k - 252) = k - 252" by (simp del: upt_Suc)
    with False k show ?thesis by (simp add: nomatch_src_def nth_append del: upt_Suc)
  qed
qed

lemma u8_of_nat_inj:
  "a < 256 \<Longrightarrow> b < 256 \<Longrightarrow> (of_nat a :: u8) = of_nat b \<longleftrightarrow> a = b"
  by (simp add: word_of_nat_eq_iff take_bit_nat_eq_self)

lemma nomatch_value_less: "i < 276 \<Longrightarrow> nomatch_value i < 255"
  unfolding nomatch_value_def by (cases "even i") (simp, arith)

lemma nomatch_value_pairs:
  "a \<noteq> b \<Longrightarrow> (nomatch_value a, nomatch_value (a + 1)) \<noteq> (nomatch_value b, nomatch_value (b + 1))"
  unfolding nomatch_value_def by (cases "even a"; cases "even b") (auto elim!: evenE oddE)

lemma nomatch_src_pairs:
  assumes "252 \<le> t" and "t < 525" and "j < t"
  shows "(nomatch_src ! j, nomatch_src ! (j + 1)) \<noteq> (nomatch_src ! t, nomatch_src ! (t + 1))"
proof -
  define a where "a = t - 252"
  have t: "t = a + 252" "a < 273" using assms by (simp_all add: a_def)
  have nt: "nomatch_src ! t = of_nat (nomatch_value a)"
    "nomatch_src ! (t + 1) = of_nat (nomatch_value (a + 1))"
    using t by (simp_all add: nomatch_src_nth)
  have va: "nomatch_value a < 255" "nomatch_value (a + 1) < 255"
    using t(2) by (simp_all add: nomatch_value_less)
  show ?thesis
  proof (cases "j < 252")
    case True
    then have "nomatch_src ! j = of_nat 255" by (simp add: nomatch_src_nth)
    moreover have "(of_nat 255 :: u8) \<noteq> of_nat (nomatch_value a)"
      using va(1) by (subst u8_of_nat_inj) simp_all
    ultimately show ?thesis unfolding nt by simp
  next
    case False
    define b where "b = j - 252"
    have j: "j = b + 252" "b < a" using False assms t by (simp_all add: b_def)
    have nj: "nomatch_src ! j = of_nat (nomatch_value b)"
      "nomatch_src ! (j + 1) = of_nat (nomatch_value (b + 1))"
      using j t by (simp_all add: nomatch_src_nth)
    have vb: "nomatch_value b < 255" "nomatch_value (b + 1) < 255"
      using j(2) t(2) by (simp_all add: nomatch_value_less)
    from nomatch_value_pairs [of b a] j(2)
    have "nomatch_value b \<noteq> nomatch_value a \<or> nomatch_value (b + 1) \<noteq> nomatch_value (a + 1)"
      by simp
    then show ?thesis
      unfolding nt nj using va vb by (auto simp: u8_of_nat_inj)
  qed
qed


lemma nomatch_find_match:
  "find_match False nomatch_src 252 512
     = Inr \<lparr>literal_size = 273, match_offset = 0, match_size = 0\<rparr>"
proof -
  have "find_match_loop False nomatch_src 252 512 273 0
      \<lparr>literal_size = 273, match_offset = 0, match_size = 0\<rparr>
    = Inr \<lparr>literal_size = 273, match_offset = 0, match_size = 0\<rparr>"
  proof (rule find_match_loop_no_prefix)
    show "\<forall>t j. 252 + 0 \<le> t \<and> t < 252 + 273 \<and> j < t \<longrightarrow>
        (nomatch_src ! j, nomatch_src ! (j + 1)) \<noteq> (nomatch_src ! t, nomatch_src ! (t + 1))"
      using nomatch_src_pairs by simp
  qed (simp_all add: nomatch_src_length)
  then show ?thesis by (simp add: find_match_def MAX_LITERAL_SIZE_def)
qed

text \<open>
  In the \<open>end_of_buffer\<close> mode the literal budget is clamped against the end of the block:
  without a match, the literal size returned is \<open>min(MAX_LITERAL, e - p)\<close>.
\<close>

lemma find_match_end_of_buffer_no_match:
  assumes "find_match True src src_pos src_end = Inr m" and "match_size m < 3"
    and "src_pos \<le> src_end"
  shows "match_size m = 0 \<and> literal_size m = min MAX_LITERAL_SIZE (src_end - src_pos)"
proof -
  define mx where "mx = min MAX_LITERAL_SIZE (size_t_sub src_end src_pos)"
  define m0 where "m0 = \<lparr>literal_size = mx, match_offset = 0, match_size = 0\<rparr>"
  from assms(1) have "find_match_loop True src src_pos src_end mx 0 m0 = Inr m"
    by (simp add: find_match_def mx_def m0_def Let_def)
  from find_match_loop_result [OF this] assms(2) have "m = m0" by (auto simp: m0_def)
  then show ?thesis using assms(3) by (simp add: m0_def mx_def size_t_sub_def)
qed

text \<open>The first two steps of the intermediate encoder on block 0 of \<open>nomatch_src\<close>.\<close>

lemma nomatch_count: "count_equal nomatch_src (Suc 0) 0 256 2 = Inr 251"
  by (rule count_equal_run) (auto simp: nomatch_src_length nomatch_src_nth nomatch_value_def)

lemma nomatch_find_match_0:
  "find_match False nomatch_src 0 512
     = Inr \<lparr>literal_size = 1, match_offset = 0, match_size = 251\<rparr>"
  apply (simp add: find_match_def consts_defs)
  apply (subst find_match_loop.simps)
  apply (simp add: Let_def consts_defs sub_clamped_def scan_window.simps [of _ _ 0])
  apply (subst find_match_loop.simps)
  apply (simp add: Let_def consts_defs sub_clamped_def)
  apply (subst scan_window.simps)
  apply (simp add: rd16_def nomatch_src_length nomatch_src_nth nomatch_count)
  apply (subst scan_window.simps)
  apply simp
  done

lemma nomatch_ranges:
  "src_range nomatch_src 0 (Suc 0) = Inr [0xFF]"
  "src_range nomatch_src 252 273 = Inr (take 273 (drop 252 nomatch_src))"
  by (simp_all add: src_range_def nomatch_src_length) (simp add: nomatch_src_def)

lemma nomatch_step_0:
  "encode_step nomatch_src 512 (empty_stream, 0, DO_NOT_INJECT_FLAG)
     = Inr (\<lparr>buffer = [0x11, 1, 0, 0xFF, 0x20, 218, 0, 0], pos = 8\<rparr>, 252, 0x20)"
  by (simp add: encode_step_def consts_defs nomatch_find_match_0 encode_literal_packet_def
      encode_match_packet_def push_dummy_def rd_def size_t_sub_def nomatch_ranges
      char_to_u32_def empty_stream_def Let_def)

lemma nomatch_step_1:
  "encode_step nomatch_src 512
       (\<lparr>buffer = [0x11, 1, 0, 0xFF, 0x20, 218, 0, 0], pos = 8\<rparr>, 252, 0x20)
     = Inr (\<lparr>buffer = [0x11, 1, 0, 0xFF, 0x20, 218, 0, 0, 0, 255]
                       @ take 273 (drop 252 nomatch_src), pos = 283\<rparr>, 525, 0)"
  by (simp add: encode_step_def consts_defs nomatch_find_match encode_literal_packet_def
      rd_def nomatch_ranges nomatch_src_length char_to_u32_def Let_def)

text \<open>
  Claim C7 fails on the code, in the mode that is not \<open>end_of_buffer\<close>. The source is
  \<open>nomatch_src\<close> (528 bytes), of which block 0 is the range 0 to 512. The first step of the
  intermediate encoder (a literal of 1 byte and a match of 251) brings \<open>src_pos\<close> to 252.
  There 252 + \<open>MAX_MATCH_SIZE\<close> is below 512, so the call site selects the mode that does
  not clamp the literal budget; nothing matches, and the literal size returned is 273,
  while \<open>min(MAX_LITERAL, e - p)\<close> is 260. The second step writes this literal of 273
  bytes and leaves \<open>src_pos\<close> at 525, which is 13 bytes past the end of the block.
\<close>

theorem find_match_literal_overrun:
  "(if 252 + MAX_MATCH_SIZE \<ge> 512 then find_match True nomatch_src 252 512
    else find_match False nomatch_src 252 512)
     = Inr \<lparr>literal_size = 273, match_offset = 0, match_size = 0\<rparr>
   \<and> min MAX_LITERAL_SIZE (512 - 252) = 260
   \<and> encode_step nomatch_src 512 (empty_stream, 0, DO_NOT_INJECT_FLAG)
       = Inr (\<lparr>buffer = [0x11, 1, 0, 0xFF, 0x20, 218, 0, 0], pos = 8\<rparr>, 252, 0x20)
   \<and> encode_step nomatch_src 512
         (\<lparr>buffer = [0x11, 1, 0, 0xFF, 0x20, 218, 0, 0], pos = 8\<rparr>, 252, 0x20)
       = Inr (\<lparr>buffer = [0x11, 1, 0, 0xFF, 0x20, 218, 0, 0, 0, 255]
                         @ take 273 (drop 252 nomatch_src), pos = 283\<rparr>, 525, 0)"
  using nomatch_find_match nomatch_step_0 nomatch_step_1
  by (simp add: MAX_LITERAL_SIZE_def MAX_MATCH_SIZE_def)


subsection \<open>The round trip\<close>

text \<open>
  The loops of the match finder and of the decoder on runs of equal bytes, and on windows
  in which nothing can match.
\<close>

lemma count_equal_bound:
  assumes "k0 \<le> mx" and "target + mx \<le> length src" and "j \<le> target"
  shows "\<exists>k. count_equal src target j mx k0 = Inr k \<and> k \<le> mx"
  using assms(1)
proof (induction "mx - k0" arbitrary: k0)
  case 0
  then show ?case by (subst count_equal.simps) simp
next
  case (Suc d)
  then have lt: "k0 < mx" by simp
  have "\<exists>k. count_equal src target j mx (k0 + 1) = Inr k \<and> k \<le> mx"
    using Suc.hyps(2) lt by (intro Suc.hyps(1)) auto
  then show ?case
    using lt assms(2,3) by (subst count_equal.simps) (auto simp: rd_def)
qed

lemma scan_window_skip:
  assumes "\<forall>j. lo \<le> j \<and> j < hi \<longrightarrow>
             j + 1 < length src \<and> (src ! j, src ! (j + 1)) \<noteq> (src ! target, src ! (target + 1))"
    and "target + 1 < length src" and "lo \<le> hi" and "hi \<le> target"
  shows "scan_window False src target mx lo m = scan_window False src target mx hi m"
  using assms(1,3)
proof (induction "hi - lo" arbitrary: lo)
  case 0
  then show ?case by simp
next
  case (Suc n)
  then have lt: "lo < hi" by simp
  with Suc.prems have j: "lo + 1 < length src"
    "(src ! lo, src ! (lo + 1)) \<noteq> (src ! target, src ! (target + 1))" by auto
  have "scan_window False src target mx (lo + 1) m = scan_window False src target mx hi m"
    using Suc.hyps(2) Suc.prems lt by (intro Suc.hyps(1)) auto
  then show ?case
    using lt j assms(2,4) by (subst scan_window.simps) (simp add: rd16_def)
qed

lemma scan_window_short:
  assumes "mx < 3" and "target + mx \<le> length src"
  shows "scan_window True src target mx lo m = Inr m"
proof (induction "target - lo" arbitrary: lo)
  case 0
  then show ?case by (subst scan_window.simps) simp
next
  case (Suc n)
  then have lt: "lo < target" by simp
  from count_equal_bound [of 0 mx target src lo] assms(2) lt obtain k where
    k: "count_equal src target lo mx 0 = Inr k" "k \<le> mx" by auto
  have "scan_window True src target mx (lo + 1) m = Inr m"
    using Suc.hyps(2) by (intro Suc.hyps(1)) simp
  then show ?case
    using lt k assms(1) by (subst scan_window.simps) simp
qed

lemma write8_at_end:
  "pos d = length (buffer d) \<Longrightarrow> write8 d b = d\<lparr>buffer := buffer d @ [b], pos := pos d + 1\<rparr>"
  by (simp add: write8_def Let_def)

lemma copy_lookback_run:
  assumes "pos d = length (buffer d)" and "buffer d \<noteq> []"
  shows "copy_lookback d (int (pos d) - 1) n
    = Inr (d\<lparr>buffer := buffer d @ replicate n (last (buffer d)), pos := pos d + n\<rparr>)"
  using assms
proof (induction n arbitrary: d)
  case 0
  then show ?case by simp
next
  case (Suc n)
  define d1 where "d1 = d\<lparr>buffer := buffer d @ [last (buffer d)], pos := pos d + 1\<rparr>"
  have nth: "buffer d ! nat (int (pos d) - 1) = last (buffer d)"
    using Suc.prems by (simp add: last_conv_nth nat_diff_distrib')
  have w: "write8 d (buffer d ! nat (int (pos d) - 1)) = d1"
    unfolding nth d1_def using Suc.prems(1) by (rule write8_at_end)
  have "copy_lookback d1 (int (pos d1) - 1) n
    = Inr (d1\<lparr>buffer := buffer d1 @ replicate n (last (buffer d1)), pos := pos d1 + n\<rparr>)"
    using Suc.prems by (intro Suc.IH) (simp_all add: d1_def)
  moreover have "int (pos d1) - 1 = int (pos d) - 1 + 1" by (simp add: d1_def)
  moreover have "0 \<le> int (pos d) - 1" "nat (int (pos d) - 1) < length (buffer d)"
    using Suc.prems by (cases "buffer d"; simp)+
  ultimately show ?case
    using Suc.prems w by (simp add: d1_def replicate_app_Cons_same)
qed


definition overrun_src :: "u8 list" where
  "overrun_src = replicate 255 0x62 @ [0x63] @ replicate 258 0x61"

lemma overrun_src_length: "length overrun_src = 514"
  by (simp add: overrun_src_def)

lemma overrun_src_nth:
  "k < 514 \<Longrightarrow> overrun_src ! k = (if k < 255 then 0x62 else if k = 255 then 0x63 else 0x61)"
  by (auto simp: overrun_src_def nth_append nth_Cons')

lemma overrun_count_1: "count_equal overrun_src (Suc 0) 0 256 2 = Inr 254"
  by (rule count_equal_run) (auto simp: overrun_src_length overrun_src_nth)

lemma overrun_count_2: "count_equal overrun_src 257 256 256 2 = Inr 256"
  by (rule count_equal_run) (auto simp: overrun_src_length overrun_src_nth)

lemma overrun_find_match_1:
  "find_match False overrun_src 0 512
     = Inr \<lparr>literal_size = 1, match_offset = 0, match_size = 254\<rparr>"
  apply (simp add: find_match_def consts_defs)
  apply (subst find_match_loop.simps)
  apply (simp add: Let_def consts_defs sub_clamped_def scan_window.simps [of _ _ 0])
  apply (subst find_match_loop.simps)
  apply (simp add: Let_def consts_defs sub_clamped_def)
  apply (subst scan_window.simps)
  apply (simp add: rd16_def overrun_src_length overrun_src_nth overrun_count_1)
  apply (subst scan_window.simps)
  apply simp
  done


lemma overrun_scan_255:
  "scan_window False overrun_src 255 256 0 m = Inr m"
proof -
  have "scan_window False overrun_src 255 256 0 m = scan_window False overrun_src 255 256 255 m"
    by (rule scan_window_skip) (auto simp: overrun_src_length overrun_src_nth)
  then show ?thesis by (simp add: scan_window.simps [of _ _ 255 _ 255])
qed

lemma overrun_scan_256:
  "scan_window False overrun_src 256 256 0 m = Inr m"
proof -
  have "scan_window False overrun_src 256 256 0 m = scan_window False overrun_src 256 256 256 m"
    by (rule scan_window_skip) (auto simp: overrun_src_length overrun_src_nth)
  then show ?thesis by (simp add: scan_window.simps [of _ _ 256 _ 256])
qed

lemma overrun_scan_257:
  "scan_window False overrun_src 257 256 0 \<lparr>literal_size = 273, match_offset = 0, match_size = 0\<rparr>
     = Inr \<lparr>literal_size = 273, match_offset = 256, match_size = 256\<rparr>"
proof -
  let ?m = "\<lparr>literal_size = 273, match_offset = 0, match_size = 0\<rparr>"
  have "scan_window False overrun_src 257 256 0 ?m = scan_window False overrun_src 257 256 256 ?m"
    by (rule scan_window_skip) (auto simp: overrun_src_length overrun_src_nth)
  also have "\<dots> = Inr \<lparr>literal_size = 273, match_offset = 256, match_size = 256\<rparr>"
    apply (subst scan_window.simps)
    apply (simp add: rd16_def overrun_src_length overrun_src_nth overrun_count_2)
    apply (subst scan_window.simps)
    apply simp
    done
  finally show ?thesis .
qed

lemma overrun_find_match_2:
  "find_match False overrun_src 255 512
     = Inr \<lparr>literal_size = 2, match_offset = 256, match_size = 256\<rparr>"
  apply (simp add: find_match_def consts_defs)
  apply (subst find_match_loop.simps)
  apply (simp add: Let_def consts_defs sub_clamped_def overrun_scan_255)
  apply (subst find_match_loop.simps)
  apply (simp add: Let_def consts_defs sub_clamped_def overrun_scan_256)
  apply (subst find_match_loop.simps)
  apply (simp add: Let_def consts_defs sub_clamped_def overrun_scan_257)
  done

lemma overrun_find_match_3:
  "find_match True overrun_src 512 514
     = Inr \<lparr>literal_size = 2, match_offset = 0, match_size = 0\<rparr>"
  apply (simp add: find_match_def consts_defs size_t_sub_def)
  apply (subst find_match_loop.simps)
  apply (simp add: Let_def consts_defs sub_clamped_def size_t_sub_def
      scan_window_short overrun_src_length)
  apply (subst find_match_loop.simps)
  apply (simp add: Let_def consts_defs sub_clamped_def size_t_sub_def
      scan_window_short overrun_src_length)
  apply (subst find_match_loop.simps)
  apply simp
  done

lemma overrun_ranges:
  "src_range overrun_src 0 (Suc 0) = Inr [0x62]"
  "src_range overrun_src 255 2 = Inr [0x63, 0x61]"
  "src_range overrun_src 512 2 = Inr [0x61, 0x61]"
  by (simp_all add: src_range_def overrun_src_def numeral_2_eq_2)

lemma overrun_block_0:
  "compress_wad_intermediate overrun_src 0 512
     = Inr [0x11, 1, 0, 0x62, 0x20, 221, 2, 0, 0x63, 0x61, 0x20, 223, 0, 0]"
  apply (simp add: compress_wad_intermediate_def)
  apply (subst intermediate_loop.simps)
  apply (simp add: encode_step_def consts_defs overrun_find_match_1 encode_literal_packet_def
      encode_match_packet_def push_dummy_def rd_def size_t_sub_def overrun_ranges
      char_to_u32_def empty_stream_def Let_def)
  apply (subst intermediate_loop.simps)
  apply (simp add: encode_step_def consts_defs overrun_find_match_2 encode_literal_packet_def
      encode_match_packet_def push_dummy_def rd_def size_t_sub_def overrun_ranges
      char_to_u32_def empty_stream_def Let_def)
  apply (subst intermediate_loop.simps)
  apply simp
  done

lemma overrun_block_1:
  "compress_wad_intermediate overrun_src 512 514 = Inr [0x11, 2, 0, 0x61, 0x61]"
  apply (simp add: compress_wad_intermediate_def)
  apply (subst intermediate_loop.simps)
  apply (simp add: encode_step_def consts_defs overrun_find_match_3 encode_literal_packet_def
      encode_match_packet_def push_dummy_def rd_def size_t_sub_def overrun_ranges
      char_to_u32_def empty_stream_def Let_def)
  apply (subst intermediate_loop.simps)
  apply simp
  done


definition overrun_packets :: "u8 list" where
  "overrun_packets =
     [0x11, 1, 0, 0x62, 0x20, 221, 2, 0, 0x63, 0x61, 0x20, 223, 0, 0,
      0x11, 0, 0, 0x11, 2, 0, 0x61, 0x61]"

lemma overrun_blocks:
  "compress_blocks overrun_src 2
     = Inr [[0x11, 1, 0, 0x62, 0x20, 221, 2, 0, 0x63, 0x61, 0x20, 223, 0, 0],
            [0x11, 2, 0, 0x61, 0x61]]"
proof -
  have u: "[0..<2] = [0, 1]" by (simp add: numeral_2_eq_2)
  show ?thesis
    by (simp add: compress_blocks_def overrun_src_length u overrun_block_0 overrun_block_1 Let_def)
qed

lemma overrun_stitch_0:
  "stitch_block 0 \<lparr>buffer = wad_header_bytes, pos = 16\<rparr>
       \<lparr>buffer = [0x11, 1, 0, 0x62, 0x20, 221, 2, 0, 0x63, 0x61, 0x20, 223, 0, 0], pos = 0\<rparr>
     = Inr \<lparr>buffer = wad_header_bytes
               @ [0x11, 1, 0, 0x62, 0x20, 221, 2, 0, 0x63, 0x61, 0x20, 223, 0, 0], pos = 30\<rparr>"
  apply (subst stitch_block.simps)
  apply (simp add: stitch_packet_def get_wad_packet_size_def rd_def src_range_def Let_def)
  apply (subst stitch_block.simps)
  apply (simp add: stitch_packet_def get_wad_packet_size_def rd_def src_range_def Let_def)
  apply (subst stitch_block.simps)
  apply (simp add: stitch_packet_def get_wad_packet_size_def rd_def src_range_def Let_def)
  apply (subst stitch_block.simps)
  apply simp
  done

lemma overrun_stitch_1:
  "stitch_block (Suc 0) \<lparr>buffer = wad_header_bytes
               @ [0x11, 1, 0, 0x62, 0x20, 221, 2, 0, 0x63, 0x61, 0x20, 223, 0, 0], pos = 30\<rparr>
       \<lparr>buffer = [0x11, 2, 0, 0x61, 0x61], pos = 0\<rparr>
     = Inr \<lparr>buffer = wad_header_bytes @ overrun_packets, pos = 38\<rparr>"
  apply (subst stitch_block.simps)
  apply (simp add: stitch_packet_def get_wad_packet_size_def rd_def src_range_def Let_def
      write8_def wad_header_bytes_def)
  apply (subst stitch_block.simps)
  apply (simp add: overrun_packets_def wad_header_bytes_def)
  done

lemma overrun_compress:
  "compress_wad empty_stream \<lparr>buffer = overrun_src, pos = 0\<rparr> 2
     = Inr \<lparr>buffer = wad_header_bytes[3 := 38] @ overrun_packets, pos = 7\<rparr>"
proof -
  have "compress_wad empty_stream \<lparr>buffer = overrun_src, pos = 0\<rparr> 2
     = Inr (write_u32 (seek \<lparr>buffer = wad_header_bytes @ overrun_packets, pos = 38\<rparr> 3) 38)"
    by (simp add: compress_wad_def overrun_blocks write_header overrun_stitch_0
        overrun_stitch_1 del: write_n.simps)
  then show ?thesis
    by (simp add: write_u32_def wad_header_bytes_def stream_defs Let_def)
qed


lemmas dec_defs0 = decode_packet_def decode_literal_def decode_type_c_def decode_big_match_def
  decode_little_match_def finish_packet_def read_length_def read2_def lookback_delta_c_def
  copy_bytes_unfold

definition overrun_stream :: "u8 list" where
  "overrun_stream = wad_header_bytes[3 := 38] @ overrun_packets"

lemma overrun_stream_length: "length overrun_stream = 38"
  by (simp add: overrun_stream_def overrun_packets_def wad_header_bytes_def)

lemma overrun_decode_1:
  "decode_packet (empty_stream, \<lparr>buffer = overrun_stream, pos = 16\<rparr>)
     = Inr (\<lparr>buffer = [0x62], pos = 1\<rparr>, \<lparr>buffer = overrun_stream, pos = 20\<rparr>)"
  by (simp add: dec_defs0 stream_defs overrun_stream_def overrun_packets_def
      wad_header_bytes_def Let_def)

lemma replicate_snoc: "replicate n x @ [x] = replicate (n + 1) x"
  by (induction n) auto

lemma replicate_cons: "x # replicate n x = replicate (n + 1) x"
  by simp

lemma overrun_copy_2:
  "copy_lookback \<lparr>buffer = [0x62], pos = Suc 0\<rparr> 0 254
     = Inr \<lparr>buffer = replicate 255 0x62, pos = 255\<rparr>"
proof -
  have "replicate 255 (0x62 :: u8) = 0x62 # replicate 254 0x62"
    using replicate_Suc [of 254 "0x62 :: u8"] by simp
  then show ?thesis
    using copy_lookback_run [of "\<lparr>buffer = [0x62], pos = 1\<rparr>" 254] by simp
qed

lemma overrun_decode_2:
  "decode_packet (\<lparr>buffer = [0x62], pos = Suc 0\<rparr>, \<lparr>buffer = overrun_stream, pos = 20\<rparr>)
     = Inr (\<lparr>buffer = replicate 255 0x62 @ [0x63, 0x61], pos = 257\<rparr>,
            \<lparr>buffer = overrun_stream, pos = 26\<rparr>)"
  by (simp add: dec_defs0 stream_defs overrun_stream_def overrun_packets_def
      wad_header_bytes_def overrun_copy_2 list_update_append Let_def)


lemma overrun_copy_3:
  "copy_lookback \<lparr>buffer = replicate 255 0x62 @ [0x63, 0x61], pos = 257\<rparr> 256 256
     = Inr \<lparr>buffer = replicate 255 0x62 @ [0x63, 0x61] @ replicate 256 0x61, pos = 513\<rparr>"
  using copy_lookback_run [of "\<lparr>buffer = replicate 255 0x62 @ [0x63, 0x61], pos = 257\<rparr>" 256]
  by simp

lemma overrun_decode_3:
  "decode_packet (\<lparr>buffer = replicate 255 0x62 @ [0x63, 0x61], pos = 257\<rparr>,
                  \<lparr>buffer = overrun_stream, pos = 26\<rparr>)
     = Inr (\<lparr>buffer = replicate 255 0x62 @ [0x63, 0x61] @ replicate 256 0x61, pos = 513\<rparr>,
            \<lparr>buffer = overrun_stream, pos = 30\<rparr>)"
  by (simp add: dec_defs0 stream_defs overrun_stream_def overrun_packets_def
      wad_header_bytes_def overrun_copy_3 list_update_append Let_def)

lemma overrun_decode_4:
  "decode_packet (\<lparr>buffer = replicate 255 0x62 @ 0x63 # 0x61 # replicate 256 0x61, pos = 513\<rparr>,
                  \<lparr>buffer = overrun_stream, pos = 30\<rparr>)
     = Inr (\<lparr>buffer = replicate 255 0x62 @ [0x63, 0x61] @ replicate 256 0x61, pos = 513\<rparr>,
            \<lparr>buffer = overrun_stream, pos = 33\<rparr>)"
  by (simp add: dec_defs0 stream_defs overrun_stream_def overrun_packets_def
      wad_header_bytes_def list_update_append Let_def)

lemma overrun_decode_5:
  "decode_packet (\<lparr>buffer = replicate 255 0x62 @ 0x63 # 0x61 # replicate 256 0x61, pos = 513\<rparr>,
                  \<lparr>buffer = overrun_stream, pos = 33\<rparr>)
     = Inr (\<lparr>buffer = replicate 255 0x62 @ [0x63, 0x61] @ replicate 256 0x61 @ [0x61, 0x61],
              pos = 515\<rparr>,
            \<lparr>buffer = overrun_stream, pos = 38\<rparr>)"
  by (simp add: dec_defs0 stream_defs overrun_stream_def overrun_packets_def
      wad_header_bytes_def list_update_append Let_def)

lemma overrun_decompress:
  "decompress_wad empty_stream \<lparr>buffer = overrun_stream, pos = 7\<rparr>
     = Inr \<lparr>buffer = replicate 255 0x62 @ [0x63, 0x61] @ replicate 256 0x61 @ [0x61, 0x61],
            pos = 515\<rparr>"
proof -
  have h: "read_header \<lparr>buffer = overrun_stream, pos = 7\<rparr>
      = Inr ([0x57, 0x41, 0x44], 38, \<lparr>buffer = overrun_stream, pos = 16\<rparr>)"
    by (simp add: read_header_def overrun_stream_length seek_def le32_def)
      (simp add: overrun_stream_def overrun_packets_def wad_header_bytes_def)
  have l: "decompress_loop 38 0 (empty_stream, \<lparr>buffer = overrun_stream, pos = 16\<rparr>)
      = Inr (\<lparr>buffer = replicate 255 0x62 @ [0x63, 0x61] @ replicate 256 0x61 @ [0x61, 0x61],
               pos = 515\<rparr>,
             \<lparr>buffer = overrun_stream, pos = 38\<rparr>)"
    apply (subst decompress_loop.simps, simp add: overrun_decode_1)
    apply (subst decompress_loop.simps, simp add: overrun_decode_2)
    apply (subst decompress_loop.simps, simp add: overrun_decode_3)
    apply (subst decompress_loop.simps, simp add: overrun_decode_4)
    apply (subst decompress_loop.simps, simp add: overrun_decode_5)
    apply (subst decompress_loop.simps, simp)
    done
  show ?thesis
    by (simp add: decompress_wad_def decompress_wad_n_def h l validate_wad_def)
qed


text \<open>
  Claim C1 fails on the code. The source is 255 bytes 0x62, one byte 0x63 and 258 bytes
  0x61 (514 bytes), compressed with two threads: block 0 is the range from 0 to 512 and
  block 1 the range from 512 to 514. At position 255 of block 0 the intermediate encoder
  takes the match finder in the mode that is not \<open>end_of_buffer\<close> (255 + 256 < 512); it
  returns a literal of 2 bytes and a match of 256 bytes, which ends at 513, one byte
  beyond the end of the block. Block 1 encodes the bytes from 512 on again, so the
  stream decompresses to 515 bytes, not to the 514 bytes of the source.
\<close>

theorem round_trip_overrun:
  "compress_wad empty_stream \<lparr>buffer = overrun_src, pos = 0\<rparr> 2
     = Inr \<lparr>buffer = overrun_stream, pos = 7\<rparr>
   \<and> decompress_wad empty_stream \<lparr>buffer = overrun_stream, pos = 7\<rparr>
     = Inr \<lparr>buffer = replicate 255 0x62 @ [0x63, 0x61] @ replicate 256 0x61 @ [0x61, 0x61],
            pos = 515\<rparr>
   \<and> length (replicate 255 (0x62 :: u8) @ [0x63, 0x61] @ replicate 256 0x61 @ [0x61, 0x61]) = 515
   \<and> length overrun_src = 514"
  using overrun_compress overrun_decompress
  by (simp add: overrun_stream_def overrun_src_length)


subsection \<open>The packets of the output\<close>

text \<open>
  The packets of a finished stream, as the decoder reads them: where the packet that starts
  at \<open>p\<close> ends, if all of it is there. A literal packet (flag below 0x10) is its flag
  byte, the length byte if the flag is 0, and its data. Every other packet is its header
  (\<open>header_size\<close> bytes: the flag, the length byte if the length field of the flag is 0,
  and the position bytes) and the tiny literal whose length is in the low two bits of the
  second-to-last header byte. A pad (the decoder's own test, \<open>is_pad_packet\<close>) is its
  three bytes, and the next packet starts where the decoder skips to, \<open>skip_pad\<close>.
\<close>

definition literal_end :: "u8 list \<Rightarrow> nat \<Rightarrow> nat option" where
  "literal_end out p =
     (if out ! p \<noteq> 0
      then (if p + (1 + (unat (out ! p) + 3)) \<le> length out
            then Some (p + (1 + (unat (out ! p) + 3))) else None)
      else (if p + 1 < length out \<and> p + (2 + (unat (out ! (p + 1)) + 18)) \<le> length out
            then Some (p + (2 + (unat (out ! (p + 1)) + 18))) else None))"

definition header_size :: "u8 \<Rightarrow> nat" where
  "header_size f =
     (if f < 0x20 then (if f AND 7 = 0 then 4 else 3)
      else if f < 0x40 then (if f AND 0x1f = 0 then 4 else 3)
      else 2)"

definition match_end :: "u8 list \<Rightarrow> nat \<Rightarrow> nat option" where
  "match_end out p =
     (let hdr = header_size (out ! p)
      in if \<not> p + hdr \<le> length out then None
         else if is_pad_packet (take hdr (drop p out)) then Some (skip_pad (p + hdr))
         else (let q = p + hdr + unat (out ! (p + hdr - 2) AND 3)
               in if q \<le> length out then Some q else None))"

definition packet_end :: "u8 list \<Rightarrow> nat \<Rightarrow> nat option" where
  "packet_end out p =
     (if \<not> p < length out then None
      else if out ! p < 0x10 then literal_end out p
      else match_end out p)"

text \<open>
  What is asked of a packet with a flag byte in 0x10 to 0x1f: it is the dummy 0x11 with
  at most a tiny-literal length in its second byte, or the pad 0x12, and its position bytes
  are zero otherwise.
\<close>

definition family_c_ok :: "u8 list \<Rightarrow> nat \<Rightarrow> bool" where
  "family_c_ok out p =
     (let f = out ! p
      in 0x10 \<le> f \<and> f < 0x20 \<longrightarrow>
           p + 2 < length out
           \<and> ((f = 0x11 \<and> out ! (p + 1) \<le> 3) \<or> (f = 0x12 \<and> out ! (p + 1) = 0))
           \<and> out ! (p + 2) = 0)"

lemma header_size_ge: "2 \<le> header_size f"
  by (simp add: header_size_def)

lemma packet_end_gt:
  assumes "packet_end out p = Some q"
  shows "p < q \<and> p < length out"
proof -
  from assms have l: "p < length out" by (simp add: packet_end_def split: if_splits)
  show ?thesis
  proof (cases "out ! p < 0x10")
    case True
    with assms l have "literal_end out p = Some q" by (simp add: packet_end_def)
    then have "p < q" by (auto simp: literal_end_def split: if_splits)
    with l show ?thesis by simp
  next
    case False
    with assms l have "match_end out p = Some q" by (simp add: packet_end_def)
    then have "p < q"
      using skip_pad_ge [of "p + header_size (out ! p)"] header_size_ge [of "out ! p"]
      by (auto simp: match_end_def Let_def split: if_splits)
    with l show ?thesis by simp
  qed
qed

text \<open>
  \<open>check_packets out p\<close>: from \<open>p\<close> to the end of \<open>out\<close>, packet after packet, every
  packet is whole and passes \<open>family_c_ok\<close>.
\<close>

function check_packets :: "u8 list \<Rightarrow> nat \<Rightarrow> bool" where
  "check_packets out p =
     (if p < length out
      then family_c_ok out p
           \<and> (case packet_end out p of None \<Rightarrow> False | Some q \<Rightarrow> check_packets out q)
      else True)"
  by pat_completeness auto
termination
proof (relation "measure (\<lambda>(out, p). length out - p)")
  show "wf (measure (\<lambda>(out::u8 list, p::nat). length out - p))" by simp
next
  fix out :: "u8 list" and p q :: nat
  assume "p < length out" and "packet_end out p = Some q"
  with packet_end_gt [of out p q]
  show "((out, q), (out, p)) \<in> measure (\<lambda>(out, p). length out - p)" by simp
qed

declare check_packets.simps [simp del]

text \<open>
  \<open>walk out p q\<close>: the packets from \<open>p\<close> on are whole and pass \<open>family_c_ok\<close> up to \<open>q\<close>,
  where a packet ends. This is what is carried along while the output grows at its end.
\<close>

inductive walk :: "u8 list \<Rightarrow> nat \<Rightarrow> nat \<Rightarrow> bool" where
  walk_refl: "walk out p p"
| walk_step: "walk out p q \<Longrightarrow> family_c_ok out q \<Longrightarrow> packet_end out q = Some r
    \<Longrightarrow> walk out p r"

lemma walk_check:
  "walk out p q \<Longrightarrow> check_packets out q \<Longrightarrow> check_packets out p"
proof (induction rule: walk.induct)
  case (walk_refl out p)
  then show ?case .
next
  case (walk_step out p q r)
  from packet_end_gt [OF walk_step.hyps(3)] walk_step.hyps(2,3) walk_step.prems
  have "check_packets out q" by (subst check_packets.simps) simp
  then show ?case by (rule walk_step.IH)
qed

lemma packet_end_append:
  assumes "packet_end out p = Some q"
  shows "packet_end (out @ xs) p = Some q"
proof -
  from assms have l: "p < length out" by (simp add: packet_end_def split: if_splits)
  then have f: "(out @ xs) ! p = out ! p" by (simp add: nth_append)
  show ?thesis
  proof (cases "out ! p < 0x10")
    case True
    with assms l have e: "literal_end out p = Some q" by (simp add: packet_end_def)
    then have "literal_end (out @ xs) p = Some q"
      unfolding literal_end_def f by (auto simp: nth_append split: if_splits)
    with True l f show ?thesis by (simp add: packet_end_def)
  next
    case False
    with assms l have e: "match_end out p = Some q" by (simp add: packet_end_def)
    define hdr where "hdr = header_size (out ! p)"
    from e have h: "p + hdr \<le> length out"
      by (auto simp: match_end_def hdr_def Let_def split: if_splits)
    have t: "take hdr (drop p (out @ xs)) = take hdr (drop p out)" using h by simp
    have "p + hdr - 2 < length out"
      using h header_size_ge [of "out ! p"] by (simp add: hdr_def)
    then have n: "(out @ xs) ! (p + hdr - 2) = out ! (p + hdr - 2)"
      by (simp add: nth_append)
    have "match_end (out @ xs) p = Some q"
      using e h unfolding match_end_def f hdr_def [symmetric] Let_def t n
      by (auto split: if_splits)
    with False l f show ?thesis by (simp add: packet_end_def)
  qed
qed

lemma family_c_ok_append:
  assumes "family_c_ok out p" and "p < length out"
  shows "family_c_ok (out @ xs) p"
  using assms by (auto simp: family_c_ok_def Let_def nth_append)

lemma walk_append: "walk out p q \<Longrightarrow> walk (out @ xs) p q"
proof (induction rule: walk.induct)
  case (walk_refl out p)
  show ?case by (rule walk.walk_refl)
next
  case (walk_step out p q r)
  from packet_end_gt [OF walk_step.hyps(3)] have "q < length out" by simp
  from walk_step.IH family_c_ok_append [OF walk_step.hyps(2) this]
    packet_end_append [OF walk_step.hyps(3)]
  show ?case by (rule walk.walk_step)
qed


lemma walk_le: "walk out p q \<Longrightarrow> p \<le> q"
  by (induction rule: walk.induct) (auto dest: packet_end_gt)

lemma packet_end_update:
  assumes "i < p"
  shows "packet_end (out[i := v]) p = packet_end out p"
proof -
  have l: "literal_end (out[i := v]) p = literal_end out p"
    using assms by (simp add: literal_end_def)
  have "i \<noteq> p + header_size (out ! p) - 2"
    using assms header_size_ge [of "out ! p"] by simp
  then have "out[i := v] ! (p + header_size (out ! p) - 2) = out ! (p + header_size (out ! p) - 2)"
    by simp
  then have m: "match_end (out[i := v]) p = match_end out p"
    using assms by (simp add: match_end_def Let_def drop_update_cancel)
  show ?thesis using assms by (simp add: packet_end_def l m)
qed

lemma family_c_ok_update:
  assumes "i < p"
  shows "family_c_ok (out[i := v]) p = family_c_ok out p"
  using assms by (simp add: family_c_ok_def Let_def)

lemma walk_update: "walk out p q \<Longrightarrow> i < p \<Longrightarrow> walk (out[i := v]) p q"
proof (induction rule: walk.induct)
  case (walk_refl out p)
  show ?case by (rule walk.walk_refl)
next
  case (walk_step out p q r)
  from walk_le [OF walk_step.hyps(1)] walk_step.prems have "i < q" by simp
  with walk_step show ?case
    by (auto intro!: walk.walk_step [where q = q] simp: packet_end_update family_c_ok_update)
qed

text \<open>
  The packets of an intermediate buffer: a literal packet is a header and its data, every
  other packet a header and its tiny literal.
\<close>

datatype packet = Literal "u8 list" "u8 list" | NonLiteral "u8 list" "u8 list"

fun render :: "packet \<Rightarrow> u8 list" where
  "render (Literal h d) = h @ d"
| "render (NonLiteral h t) = h @ t"

definition literal_header :: "u8 list \<Rightarrow> nat \<Rightarrow> bool" where
  "literal_header h n =
     ((\<exists>f. h = [f] \<and> f \<noteq> 0 \<and> f < 0x10 \<and> n = unat f + 3) \<or> (\<exists>x. h = [0, x] \<and> n = unat x + 18))"

definition match_header :: "u8 list \<Rightarrow> bool" where
  "match_header h =
     (h \<noteq> [] \<and> 0x10 \<le> hd h \<and> length h = header_size (hd h)
      \<and> (hd h < 0x20 \<longrightarrow> hd h = 0x11 \<and> h ! 1 \<le> 3 \<and> h ! 2 = 0))"

fun wf_packet :: "packet \<Rightarrow> bool" where
  "wf_packet (Literal h d) = literal_header h (length d)"
| "wf_packet (NonLiteral h t) =
     (match_header h \<and> length t = unat (h ! (length h - 2) AND 3))"

lemma render_nonempty: "wf_packet p \<Longrightarrow> render p \<noteq> []"
  by (cases p) (auto simp: literal_header_def match_header_def)

lemma get_wad_packet_size_literal:
  assumes "literal_header h (length d)"
    and "get_wad_packet_size (h @ d @ rest) bl = Inr n"
  shows "n = length (h @ d)"
  using assms
  by (auto simp: literal_header_def get_wad_packet_size_def rd_def nth_append
      split: if_splits sum.splits)

lemma get_wad_packet_size_header:
  assumes "\<not> f < 0x10"
  shows "get_wad_packet_size (f # bs) bl =
     (case rd (f # bs) (header_size f - 2) of
        Inl e \<Rightarrow> Inl e
      | Inr b \<Rightarrow> Inr (header_size f + unat (b AND 3)))"
proof -
  have sz: "(if f < 0x20 then (if f AND 7 = 0 then 1 + 1 else 1) + (1 + 1)
             else if f < 0x40 then (if f AND 0x1f = 0 then 1 + 1 else 1) + (1 + 1)
             else 1 + 1) = header_size f"
    by (simp add: header_size_def)
  have r: "rd (f # bs) 0 = Inr f" by (simp add: rd_def)
  show ?thesis
    unfolding get_wad_packet_size_def r sum.case Let_def sz using assms by (simp only: if_False)
qed

lemma get_wad_packet_size_match:
  assumes "match_header h" and "length t = unat (h ! (length h - 2) AND 3)"
    and "get_wad_packet_size (h @ t @ rest) bl = Inr n"
  shows "n = length (h @ t)"
proof -
  from assms(1) obtain f h' where h: "h = f # h'" and f: "0x10 \<le> f"
    and l: "length h = header_size f"
    by (cases h) (auto simp: match_header_def)
  have nl: "\<not> f < 0x10" using f by simp
  have ge: "2 \<le> length h" using l header_size_ge [of f] by simp
  then have "rd (h @ t @ rest) (header_size f - 2) = Inr (h ! (length h - 2))"
    using l by (simp add: rd_def nth_append)
  then have "get_wad_packet_size (h @ t @ rest) bl
      = Inr (header_size f + unat (h ! (length h - 2) AND 3))"
    using get_wad_packet_size_header [OF nl, of "h' @ t @ rest" bl] by (simp add: h)
  with assms(2,3) l show ?thesis by simp
qed

lemma get_wad_packet_size_render:
  assumes "wf_packet p" and "get_wad_packet_size (render p @ rest) bl = Inr n"
  shows "n = length (render p)"
proof (cases p)
  case (Literal h d)
  with assms get_wad_packet_size_literal [of h d rest bl n] show ?thesis by simp
next
  case (NonLiteral h t)
  with assms get_wad_packet_size_match [of h t rest bl n] show ?thesis by simp
qed


text \<open>
  On a packet that is not a pad, the walk moves on by what \<open>get_wad_packet_size\<close> returns
  for the bytes at that place.
\<close>

lemma packet_end_size:
  assumes pe: "packet_end out p = Some q"
    and g: "get_wad_packet_size (drop p out) bytes_left = Inr n"
    and np: "\<not> is_pad_packet (take (header_size (out ! p)) (drop p out))"
  shows "q = p + n"
proof -
  from pe have l: "p < length out" by (simp add: packet_end_def split: if_splits)
  then have dr: "drop p out = out ! p # drop (Suc p) out" by (simp add: Cons_nth_drop_Suc)
  show ?thesis
  proof (cases "out ! p < 0x10")
    case True
    with pe l have le: "literal_end out p = Some q" by (simp add: packet_end_def)
    show ?thesis
    proof (cases "out ! p = 0")
      case z: True
      with le have q: "q = p + (2 + (unat (out ! (p + 1)) + 18))" and l1: "p + 1 < length out"
        by (auto simp: literal_end_def split: if_splits)
      from l1 have "rd (drop p out) 1 = Inr (out ! (p + 1))" by (simp add: rd_def)
      with g z True have "n = 1 + (1 + (unat (out ! (p + 1)) + 18))"
        unfolding get_wad_packet_size_def
        by (auto simp: dr rd_def split: if_splits sum.splits)
      with q show ?thesis by simp
    next
      case nz: False
      with le have q: "q = p + (1 + (unat (out ! p) + 3))"
        by (auto simp: literal_end_def split: if_splits)
      from g nz True have "n = 1 + (unat (out ! p) + 3)"
        unfolding get_wad_packet_size_def
        by (auto simp: dr rd_def split: if_splits sum.splits)
      with q show ?thesis by simp
    qed
  next
    case False
    with pe l have me: "match_end out p = Some q" by (simp add: packet_end_def)
    define hdr where "hdr = header_size (out ! p)"
    from me np have h: "p + hdr \<le> length out"
      and q: "q = p + hdr + unat (out ! (p + hdr - 2) AND 3)"
      by (auto simp: match_end_def Let_def hdr_def split: if_splits)
    have ge: "2 \<le> hdr" unfolding hdr_def by (rule header_size_ge)
    then have "hdr - 2 < length (drop p out)" using h by simp
    then have "rd (drop p out) (hdr - 2) = Inr (drop p out ! (hdr - 2))" by (simp add: rd_def)
    moreover have "drop p out ! (hdr - 2) = out ! (p + hdr - 2)" using h ge by simp
    ultimately have "rd (out ! p # drop (Suc p) out) (hdr - 2) = Inr (out ! (p + hdr - 2))"
      by (simp add: dr [symmetric])
    with g get_wad_packet_size_header [OF False, of "drop (Suc p) out" bytes_left]
    have "n = hdr + unat (out ! (p + hdr - 2) AND 3)"
      by (simp add: dr hdr_def)
    with q show ?thesis by simp
  qed
qed

lemma unat_u8_le: "unat (x :: u8) \<le> 255"
  using unsigned_less [of x, where 'a = nat] by simp

lemma get_wad_packet_size_le:
  assumes "get_wad_packet_size bs bl = Inr n"
  shows "n \<le> 275"
proof -
  from assms obtain f where f: "rd bs 0 = Inr f"
    by (auto simp: get_wad_packet_size_def split: sum.splits)
  then obtain bs' where bs: "bs = f # bs'" by (cases bs) (auto simp: rd_def)
  show ?thesis
  proof (cases "f < 0x10")
    case True
    from assms f True have "n = 1 + (unat f + 3) \<or> (\<exists>x :: u8. n = 1 + (1 + (unat x + 18)))"
      by (auto simp: get_wad_packet_size_def split: sum.splits if_splits)
    then show ?thesis
    proof
      assume "n = 1 + (unat f + 3)"
      with unat_u8_le [of f] show ?thesis by simp
    next
      assume "\<exists>x :: u8. n = 1 + (1 + (unat x + 18))"
      then obtain x :: u8 where "n = 1 + (1 + (unat x + 18))" by blast
      with unat_u8_le [of x] show ?thesis by simp
    qed
  next
    case False
    have hs: "header_size f \<le> 4" by (simp add: header_size_def)
    from assms get_wad_packet_size_header [OF False, of bs' bl]
    obtain b :: u8 where n: "n = header_size f + unat (b AND 3)"
      by (auto simp: bs split: sum.splits)
    have "unat (b AND 3) \<le> unat (3 :: u8)"
      by (rule word_and_le1 [THEN word_le_nat_alt [THEN iffD1]])
    then have "unat (b AND 3) \<le> 3" by simp
    with hs n show ?thesis by simp
  qed
qed

lemma is_pad_packet_dummy: "\<not> is_pad_packet (0x11 # x # y # bs)"
  by (simp add: is_pad_packet_def)

lemma is_pad_packet_match: "\<not> f < 0x20 \<Longrightarrow> \<not> is_pad_packet (f # bs)"
  by (simp add: is_pad_packet_def)

lemma packet_end_render:
  assumes "wf_packet p"
  shows "packet_end (pre @ render p @ rest) (length pre) = Some (length pre + length (render p))"
    and "family_c_ok (pre @ render p @ rest) (length pre)"
proof -
  let ?out = "pre @ render p @ rest"
  have both: "packet_end ?out (length pre) = Some (length pre + length (render p))
      \<and> family_c_ok ?out (length pre)"
  proof (cases p)
    case (Literal h d)
    with assms have lh: "literal_header h (length d)" by simp
    then consider (short) f where "h = [f]" "f \<noteq> 0" "f < 0x10" "length d = unat f + 3"
      | (long) x where "h = [0, x]" "length d = unat x + 18"
      by (auto simp: literal_header_def)
    then show ?thesis
    proof cases
      case short
      have o: "?out ! length pre = f" by (simp add: Literal short nth_append)
      have "literal_end ?out (length pre) = Some (length pre + length (render p))"
        unfolding literal_end_def o using short by (simp add: Literal)
      moreover have "\<not> 0x10 \<le> f" using short(3) by (simp add: not_le)
      then have "family_c_ok ?out (length pre)"
        unfolding family_c_ok_def o Let_def by simp
      ultimately show ?thesis using short(3) by (simp add: packet_end_def o Literal short)
    next
      case long
      have o: "?out ! length pre = 0" "?out ! (length pre + 1) = x"
        by (simp_all add: Literal long nth_append)
      have "literal_end ?out (length pre) = Some (length pre + length (render p))"
        unfolding literal_end_def o using long by (simp add: Literal)
      moreover have "family_c_ok ?out (length pre)"
        unfolding family_c_ok_def o Let_def by simp
      ultimately show ?thesis by (simp add: packet_end_def o Literal long)
    qed
  next
    case (NonLiteral h t)
    with assms have mh: "match_header h" and lt: "length t = unat (h ! (length h - 2) AND 3)"
      by simp_all
    from mh obtain f h' where h: "h = f # h'" and f: "0x10 \<le> f"
      and l: "length h = header_size f"
      and c: "f < 0x20 \<longrightarrow> f = 0x11 \<and> h ! 1 \<le> 3 \<and> h ! 2 = 0"
      by (cases h) (auto simp: match_header_def)
    have nl: "\<not> f < 0x10" using f by simp
    have o: "?out ! length pre = f" by (simp add: NonLiteral h nth_append)
    have ge: "2 \<le> length h" using l header_size_ge [of f] by simp
    have tk: "take (header_size f) (drop (length pre) ?out) = h"
      using l by (simp add: NonLiteral)
    have np: "\<not> is_pad_packet h"
    proof (cases "f < 0x20")
      case True
      with c have f11: "f = 0x11" by simp
      with l have "length h = 3" by (simp add: header_size_def)
      then obtain x y where "h = [0x11, x, y]"
        using h f11 by (cases h'; cases "tl h'") auto
      then show ?thesis by (simp add: is_pad_packet_dummy)
    next
      case False
      then show ?thesis unfolding h by (rule is_pad_packet_match)
    qed
    have n2: "?out ! (length pre + header_size f - 2) = h ! (length h - 2)"
    proof -
      have e: "length pre + header_size f - 2 = length pre + (length h - 2)" using ge l by simp
      have "length h - 2 < length h" using ge by simp
      then have "(h @ t @ rest) ! (length h - 2) = h ! (length h - 2)"
        by (simp only: nth_append if_True)
      then show ?thesis unfolding e NonLiteral render.simps append_assoc
        by (simp only: nth_append_length_plus)
    qed
    have "match_end ?out (length pre) = Some (length pre + length (render p))"
      unfolding match_end_def o Let_def tk n2 using np l lt by (simp add: NonLiteral)
    then have pe: "packet_end ?out (length pre) = Some (length pre + length (render p))"
      using nl by (simp add: packet_end_def o NonLiteral h)
    have fc: "family_c_ok ?out (length pre)"
    proof (cases "f < 0x20")
      case True
      with c have f11: "f = 0x11" "h ! 1 \<le> 3" "h ! 2 = 0" by simp_all
      with l have l3: "length h = 3" by (simp add: header_size_def)
      then have "?out ! (length pre + 1) = h ! 1" "?out ! (length pre + 2) = h ! 2"
        by (simp_all add: NonLiteral nth_append)
      with f11 l3 show ?thesis
        unfolding family_c_ok_def o Let_def by (simp add: NonLiteral)
    next
      case False
      then show ?thesis unfolding family_c_ok_def o Let_def by simp
    qed
    from pe fc show ?thesis by simp
  qed
  from both show "packet_end ?out (length pre) = Some (length pre + length (render p))"
    and "family_c_ok ?out (length pre)" by simp_all
qed


lemma three_mask: "(3 :: u8) = mask 2"
  by (simp add: mask_eq_exp_minus_1)

lemma push2_and3: "push_bit 2 (x :: u8) AND 3 = 0"
  unfolding three_mask take_bit_eq_mask [symmetric] by (simp add: take_bit_push_bit)

lemma of_nat_and3:
  assumes "l \<le> (3::nat)"
  shows "(of_nat l :: u8) AND 3 = of_nat l"
proof -
  from assms have "l = 0 \<or> l = 1 \<or> l = 2 \<or> l = 3" by arith
  then show ?thesis by auto
qed

lemma or_tiny:
  fixes b :: u8
  assumes "b AND 3 = 0" and "l \<le> (3::nat)"
  shows "unat ((b OR of_nat l) AND 3) = l"
proof -
  have "(b OR of_nat l) AND 3 = (b AND 3) OR (of_nat l AND 3)"
    by (rule word_ao_dist)
  also have "\<dots> = of_nat l" using assms by (simp add: of_nat_and3)
  finally show ?thesis using assms(2) by (simp add: unat_of_nat)
qed

lemma sint_u8:
  fixes f :: u8
  shows "sint f = (if uint f < 128 then uint f else uint f - 256)"
proof -
  have b: "uint f < 256" using uint_lt2p [of f] by simp
  have n: "0 \<le> uint f" by simp
  show ?thesis
  proof (cases "uint f < 128")
    case True
    have "- (2 ^ 7) \<le> (0::int)" by simp
    also have "0 \<le> uint f" by simp
    finally have lo: "- (2 ^ 7) \<le> uint f" .
    from True have hi: "uint f < 2 ^ 7" by simp
    from lo hi have "signed_take_bit 7 (uint f) = uint f"
      by (rule signed_take_bit_int_eq_self)
    with True show ?thesis by (simp add: sint_uint)
  next
    case False
    then have "uint f div 128 = 1" using b by simp
    then have "bit (uint f) 7" by (simp add: bit_iff_odd)
    then have "signed_take_bit 7 (uint f) = take_bit 8 (uint f) - 256"
      by (simp add: signed_take_bit_eq_take_bit_minus)
    moreover have "take_bit 8 (uint f) = uint f" using b n by (simp add: take_bit_int_eq_self)
    ultimately show ?thesis using False by (simp add: sint_uint)
  qed
qed

lemma char_to_u32_uint:
  "uint (char_to_u32 f) = (if uint f < 128 then uint f else uint f + (2 ^ 32 - 256))"
proof -
  have b: "uint f < 256" "0 \<le> uint f" using uint_lt2p [of f] by simp_all
  show ?thesis
  proof (cases "uint f < 128")
    case True
    moreover have "take_bit 32 (uint f) = uint f"
      using b by (intro take_bit_int_eq_self) simp_all
    ultimately show ?thesis
      by (simp add: char_to_u32_def scast_eq sint_u8 unsigned_ucast_eq)
  next
    case False
    have "(uint f - 256) mod (2 ^ 32 :: int) = (uint f - 256 + 2 ^ 32) mod 2 ^ 32"
      by (simp only: mod_add_self2)
    also have "\<dots> = uint f - 256 + 2 ^ 32" using b False by (intro mod_pos_pos_trivial) simp_all
    finally have "(uint f - 256) mod (2 ^ 32 :: int) = uint f - 256 + 2 ^ 32" .
    then have "uint (word_of_int (uint f - 256) :: 32 word) = uint f - 256 + 2 ^ 32"
      by (simp only: uint_word_of_int) simp
    then show ?thesis using False
      by (simp add: char_to_u32_def scast_eq sint_u8)
  qed
qed

lemma char_to_u32_literal:
  assumes "f < 0x10"
  shows "char_to_u32 f < 0x10"
proof -
  from assms have "uint f < 16" by (simp add: word_less_def)
  then show ?thesis by (simp add: word_less_def char_to_u32_uint)
qed

lemma char_to_u32_match:
  assumes "0x20 \<le> f"
  shows "\<not> char_to_u32 f < 0x10" and "char_to_u32 f \<noteq> DO_NOT_INJECT_FLAG"
proof -
  from assms have l: "32 \<le> uint f" by (simp add: word_le_def)
  have b: "uint f < 256" using uint_lt2p [of f] by simp
  show "\<not> char_to_u32 f < 0x10" using l by (simp add: word_less_def char_to_u32_uint)
  have "uint (char_to_u32 f) \<noteq> uint (0x100 :: 32 word)"
    using l b by (simp add: char_to_u32_uint)
  then show "char_to_u32 f \<noteq> DO_NOT_INJECT_FLAG" by (auto simp: DO_NOT_INJECT_FLAG_def)
qed

lemma little_flag:
  assumes "3 \<le> ms" and "ms \<le> 8"
  shows "0x40 \<le> (push_bit 5 (of_nat (ms - 1)) OR push_bit 2 (of_nat (d mod 8)) :: u8)"
    and "(push_bit 5 (of_nat (ms - 1)) OR push_bit 2 (of_nat (d mod 8)) :: u8) AND 3 = 0"
proof -
  from assms have "ms = 3 \<or> ms = 4 \<or> ms = 5 \<or> ms = 6 \<or> ms = 7 \<or> ms = 8" by arith
  then have "0x40 \<le> (push_bit 5 (of_nat (ms - 1)) :: u8)" by (elim disjE) simp_all
  also have "\<dots> \<le> push_bit 5 (of_nat (ms - 1)) OR push_bit 2 (of_nat (d mod 8))"
    by (rule le_word_or2)
  finally show "0x40 \<le> (push_bit 5 (of_nat (ms - 1)) OR push_bit 2 (of_nat (d mod 8)) :: u8)" .
  have "push_bit 5 (of_nat (ms - 1) :: u8) AND 3 = 0"
    unfolding three_mask take_bit_eq_mask [symmetric] by (simp add: take_bit_push_bit)
  then show "(push_bit 5 (of_nat (ms - 1)) OR push_bit 2 (of_nat (d mod 8)) :: u8) AND 3 = 0"
    by (simp add: word_ao_dist push2_and3)
qed

lemma big_flag:
  assumes "3 \<le> ms" and "ms \<le> 33"
  shows "0x20 \<le> (push_bit 5 1 OR of_nat (ms - 2) :: u8)"
    and "(push_bit 5 1 OR of_nat (ms - 2) :: u8) < 0x40"
    and "(push_bit 5 1 OR of_nat (ms - 2) :: u8) AND 0x1f \<noteq> 0"
proof -
  define k where "k = ms - 2"
  have k: "1 \<le> k" "k \<le> 31" using assms by (simp_all add: k_def)
  have "0x20 \<le> (push_bit 5 1 :: u8)" by simp
  also have "\<dots> \<le> push_bit 5 1 OR of_nat k" by (rule le_word_or2)
  finally show "0x20 \<le> (push_bit 5 1 OR of_nat (ms - 2) :: u8)" by (simp add: k_def)
  have m: "(of_nat k :: u8) AND 0x1f = of_nat k"
  proof -
    have "(0x1f :: u8) = mask 5" by (simp add: mask_eq_exp_minus_1)
    moreover have "take_bit 5 (of_nat k :: u8) = of_nat k"
      using k by (simp add: take_bit_of_nat take_bit_nat_eq_self)
    ultimately show ?thesis by (simp add: take_bit_eq_mask)
  qed
  have nz: "(of_nat k :: u8) \<noteq> 0"
    using k by (simp add: word_of_nat_eq_0_iff) (auto dest: dvd_imp_le)
  have "(push_bit 5 1 OR of_nat k :: u8) AND 0x1f = of_nat k"
    by (simp add: word_ao_dist m)
  with nz show "(push_bit 5 1 OR of_nat (ms - 2) :: u8) AND 0x1f \<noteq> 0" by (simp add: k_def)
  have "unat (of_nat k :: u8) = k" using k by (simp add: unat_of_nat)
  then have "uint (of_nat k :: u8) = int k" by (simp only: uint_nat)
  then have "uint (push_bit 5 1 OR of_nat k :: u8) = 32 OR int k"
    by (simp add: unsigned_or_eq)
  moreover have "32 OR int k < 2 ^ 6" using k by (intro OR_upper) simp_all
  ultimately show "(push_bit 5 1 OR of_nat (ms - 2) :: u8) < 0x40"
    by (simp add: word_less_def k_def)
qed

text \<open>The header that \<open>encode_match_packet\<close> appends.\<close>

definition match_head :: "nat \<Rightarrow> nat \<Rightarrow> nat \<Rightarrow> u8 list" where
  "match_head sp mo ms =
     (let lookback = size_t_sub sp mo; delta = size_t_sub (size_t_sub sp mo) 1
      in if ms \<le> MAX_LITTLE_MATCH_SIZE \<and> lookback \<le> MAX_LITTLE_MATCH_LOOKBACK
         then [push_bit 5 (of_nat (size_t_sub ms 1)) OR push_bit 2 (of_nat (delta mod 8)),
               of_nat (delta div 8)]
         else (if ms > MAX_BIG_MATCH_SIZE
               then [push_bit 5 1, of_nat (size_t_sub ms (0x1f + 2))]
               else [push_bit 5 1 OR of_nat (size_t_sub ms 2)])
              @ [push_bit 2 (of_nat (delta mod 0x40)), of_nat (delta div 0x40)])"

lemma encode_match_packet_head:
  assumes "encode_match_packet dest src sp se lf mo ms = Inr (d', sp', lf')"
    and "pos dest = length (buffer dest)"
  shows "buffer d' = buffer dest @ match_head sp mo ms"
    and "lf' = char_to_u32 (hd (match_head sp mo ms))"
  using assms
  by (auto simp: encode_match_packet_def match_head_def Let_def rd_def nth_append
      split: if_splits sum.splits)

lemma match_head_ok:
  assumes "3 \<le> ms"
  shows "match_header (match_head sp mo ms)"
    and "0x20 \<le> hd (match_head sp mo ms)"
    and "match_head sp mo ms ! (length (match_head sp mo ms) - 2) AND 3 = 0"
proof -
  define delta where "delta = size_t_sub (size_t_sub sp mo) 1"
  have s: "size_t_sub ms 1 = ms - 1" "size_t_sub ms 2 = ms - 2" "size_t_sub ms (Suc 0) = ms - Suc 0"
    using assms by (simp_all add: size_t_sub_def)
  consider (little) "ms \<le> 8" "size_t_sub sp mo \<le> MAX_LITTLE_MATCH_LOOKBACK"
    | (huge) "\<not> (ms \<le> 8 \<and> size_t_sub sp mo \<le> MAX_LITTLE_MATCH_LOOKBACK)" "33 < ms"
    | (big) "\<not> (ms \<le> 8 \<and> size_t_sub sp mo \<le> MAX_LITTLE_MATCH_LOOKBACK)" "ms \<le> 33"
    by linarith
  then have "match_header (match_head sp mo ms) \<and> 0x20 \<le> hd (match_head sp mo ms)
      \<and> match_head sp mo ms ! (length (match_head sp mo ms) - 2) AND 3 = 0"
  proof cases
    case little
    define f :: u8 where "f = push_bit 5 (of_nat (ms - 1)) OR push_bit 2 (of_nat (delta mod 8))"
    have h: "match_head sp mo ms = [f, of_nat (delta div 8)]"
      using little by (simp add: match_head_def Let_def s f_def delta_def MAX_LITTLE_MATCH_SIZE_def)
    from little_flag [OF assms little(1), of delta] have f: "0x40 \<le> f" "f AND 3 = 0"
      by (simp_all add: f_def)
    from f(1) have "\<not> f < 0x40" "\<not> f < 0x20" "0x10 \<le> f" "0x20 \<le> f"
      by (simp_all add: word_le_def word_less_def)
    then show ?thesis using f(2) by (simp add: h match_header_def header_size_def)
  next
    case huge
    have h: "match_head sp mo ms = [0x20, of_nat (size_t_sub ms 33),
        push_bit 2 (of_nat (delta mod 0x40)), of_nat (delta div 0x40)]"
      using huge
      by (simp add: match_head_def Let_def delta_def MAX_LITTLE_MATCH_SIZE_def
          MAX_BIG_MATCH_SIZE_def)
    show ?thesis by (simp add: h match_header_def header_size_def push2_and3)
  next
    case big
    define f :: u8 where "f = push_bit 5 1 OR of_nat (ms - 2)"
    have h: "match_head sp mo ms = [f, push_bit 2 (of_nat (delta mod 0x40)), of_nat (delta div 0x40)]"
      using big
      by (simp add: match_head_def Let_def delta_def s f_def MAX_LITTLE_MATCH_SIZE_def
          MAX_BIG_MATCH_SIZE_def)
    from big_flag [OF assms big(2)] have f: "0x20 \<le> f" "f < 0x40" "f AND 0x1f \<noteq> 0"
      by (simp_all add: f_def)
    from f(1) have "\<not> f < 0x20" "0x10 \<le> f" by (simp_all add: word_le_def word_less_def)
    then show ?thesis using f by (simp add: h match_header_def header_size_def push2_and3)
  qed
  then show "match_header (match_head sp mo ms)"
    and "0x20 \<le> hd (match_head sp mo ms)"
    and "match_head sp mo ms ! (length (match_head sp mo ms) - 2) AND 3 = 0"
    by simp_all
qed

lemma find_match_bounds:
  assumes "find_match eob src p e = Inr m"
  shows "literal_size m \<le> 273" and "match_size m = 0 \<or> 3 \<le> match_size m"
proof -
  define mx where "mx = (if eob then min MAX_LITERAL_SIZE (size_t_sub e p) else MAX_LITERAL_SIZE)"
  have mx: "mx \<le> 273" by (simp add: mx_def MAX_LITERAL_SIZE_def)
  from assms have "find_match_loop eob src p e mx 0
      \<lparr>literal_size = mx, match_offset = 0, match_size = 0\<rparr> = Inr m"
    by (simp add: find_match_def mx_def Let_def)
  from find_match_loop_result [OF this] mx
  show "literal_size m \<le> 273" and "match_size m = 0 \<or> 3 \<le> match_size m" by auto
qed


text \<open>
  What holds of the buffer of a worker between two packets: it is a sequence of whole
  packets, and unless the last flag is a literal's or the mark \<open>DO_NOT_INJECT_FLAG\<close>, the
  last packet is one without a tiny literal yet.
\<close>

definition enc_inv :: "u8 list \<Rightarrow> 32 word \<Rightarrow> bool" where
  "enc_inv buf lf \<longleftrightarrow>
     (\<exists>ps. buf = concat (map render ps) \<and> (\<forall>p\<in>set ps. wf_packet p)
        \<and> (\<not> lf < 0x10 \<and> lf \<noteq> DO_NOT_INJECT_FLAG \<longrightarrow> (\<exists>ps' h. ps = ps' @ [NonLiteral h []])))"

lemma enc_invI:
  assumes "buf = concat (map render ps)" and "\<forall>p\<in>set ps. wf_packet p"
    and "\<not> lf < 0x10 \<and> lf \<noteq> DO_NOT_INJECT_FLAG \<longrightarrow> (\<exists>ps' h. ps = ps' @ [NonLiteral h []])"
  shows "enc_inv buf lf"
  unfolding enc_inv_def using assms by blast

lemma enc_inv_match:
  assumes "enc_inv (buffer dest) lf" and "pos dest = length (buffer dest)"
    and "encode_match_packet dest src sp se lf mo ms = Inr (d', sp', lf')" and "3 \<le> ms"
  shows "enc_inv (buffer d') lf'"
proof -
  from assms(1) obtain ps where
    ps: "buffer dest = concat (map render ps)" "\<forall>p\<in>set ps. wf_packet p"
    by (auto simp: enc_inv_def)
  let ?h = "match_head sp mo ms"
  note h = encode_match_packet_head [OF assms(3,2)]
  note ok = match_head_ok [OF assms(4), of sp mo]
  have w: "wf_packet (NonLiteral ?h [])" using ok by simp
  show ?thesis
  proof (rule enc_invI [where ps = "ps @ [NonLiteral ?h []]"])
    show "buffer d' = concat (map render (ps @ [NonLiteral ?h []]))"
      using h(1) ps(1) by simp
    show "\<forall>p\<in>set (ps @ [NonLiteral ?h []]). wf_packet p" using ps(2) w by auto
    show "\<not> lf' < 0x10 \<and> lf' \<noteq> DO_NOT_INJECT_FLAG
        \<longrightarrow> (\<exists>ps' h. ps @ [NonLiteral ?h []] = ps' @ [NonLiteral h []])"
      by blast
  qed
qed

lemma wf_dummy: "wf_packet (NonLiteral [0x11, 0, 0] [])"
  by (simp add: match_header_def header_size_def)

lemma enc_inv_dummy:
  assumes "enc_inv (buffer dest) lf"
  shows "enc_inv (buffer (push_dummy dest)) 0x11"
    and "pos (push_dummy dest) = length (buffer (push_dummy dest))"
proof -
  from assms obtain ps where
    ps: "buffer dest = concat (map render ps)" "\<forall>p\<in>set ps. wf_packet p"
    by (auto simp: enc_inv_def)
  show "enc_inv (buffer (push_dummy dest)) 0x11"
  proof (rule enc_invI [where ps = "ps @ [NonLiteral [0x11, 0, 0] []]"])
    show "buffer (push_dummy dest) = concat (map render (ps @ [NonLiteral [0x11, 0, 0] []]))"
      using ps(1) by (simp add: push_dummy_def DUMMY_PACKET_def)
    show "\<forall>p\<in>set (ps @ [NonLiteral [0x11, 0, 0] []]). wf_packet p"
      using ps(2) wf_dummy by auto
    show "\<not> (0x11 :: 32 word) < 0x10 \<and> (0x11 :: 32 word) \<noteq> DO_NOT_INJECT_FLAG
        \<longrightarrow> (\<exists>ps' h. ps @ [NonLiteral [0x11, 0, 0] []] = ps' @ [NonLiteral h []])"
      by blast
  qed
  show "pos (push_dummy dest) = length (buffer (push_dummy dest))"
    by (simp add: push_dummy_def)
qed

lemma u8_le3_and3:
  fixes x :: u8
  assumes "x \<le> 3" and "x AND 3 = 0"
  shows "x = 0"
proof -
  from assms(1) have "unat x \<le> 3" by (simp add: word_le_nat_alt)
  then have "x = of_nat (unat x)" "unat x \<le> 3" by simp_all
  then have "x AND 3 = x" using of_nat_and3 [of "unat x"] by simp
  with assms(2) show ?thesis by simp
qed

lemma u8_of_nat_le3:
  assumes "L \<le> (3::nat)"
  shows "(of_nat L :: u8) \<le> 3"
proof -
  from assms have "unat (of_nat L :: u8) = L" by (simp add: unat_of_nat)
  with assms show ?thesis by (simp add: word_le_nat_alt)
qed

text \<open>A tiny-literal length OR-ed into the second-to-last byte of a header.\<close>

lemma inject_header:
  assumes m: "match_header h" and z: "h ! (length h - 2) AND 3 = 0" and L: "L \<le> 3"
  shows "match_header (h[length h - 2 := h ! (length h - 2) OR of_nat L])"
    and "unat (h[length h - 2 := h ! (length h - 2) OR of_nat L] ! (length h - 2) AND 3) = L"
proof -
  let ?b = "h ! (length h - 2) OR of_nat L"
  let ?h = "h[length h - 2 := ?b]"
  from m obtain f h' where h: "h = f # h'" and f: "0x10 \<le> f"
    and l: "length h = header_size f"
    and c: "f < 0x20 \<longrightarrow> f = 0x11 \<and> h ! 1 \<le> 3 \<and> h ! 2 = 0"
    by (cases h) (auto simp: match_header_def)
  have ge: "2 \<le> length h" using l header_size_ge [of f] by simp
  then have "length h - 2 < length h" by simp
  then have "?h ! (length h - 2) = ?b" by simp
  then show "unat (?h ! (length h - 2) AND 3) = L" using or_tiny [OF z L] by simp
  show "match_header ?h"
  proof (cases "length h = 2")
    case True
    with l have nf: "\<not> f < 0x40" by (auto simp: header_size_def split: if_splits)
    from True h obtain x where hx: "h = [f, x]" by (cases h'; cases "tl h'") auto
    have "f \<le> f OR of_nat L" by (rule le_word_or2)
    with nf have n2: "\<not> (f OR of_nat L) < 0x40" by simp
    then have "\<not> (f OR of_nat L) < 0x20" "0x10 \<le> f OR of_nat L"
      by (simp_all add: word_le_def word_less_def)
    with n2 show ?thesis by (simp add: hx match_header_def header_size_def)
  next
    case False
    with ge have g3: "3 \<le> length h" by simp
    then obtain k where k: "length h - 2 = Suc k" by (cases "length h - 2") auto
    have ne: "?h \<noteq> []" using ge by auto
    then have "hd ?h = ?h ! 0" by (simp add: hd_conv_nth)
    also have "\<dots> = h ! 0" using g3 by (simp add: nth_list_update)
    also have "\<dots> = f" by (simp add: h)
    finally have hd: "hd ?h = f" "?h \<noteq> []" using ne by simp_all
    show ?thesis
    proof (cases "f < 0x20")
      case True
      with c have c': "f = 0x11" "h ! 1 \<le> 3" "h ! 2 = 0" by simp_all
      from c'(1) l have l3: "length h = 3" by (simp add: header_size_def)
      with z have "h ! 1 AND 3 = 0" by simp
      with c'(2) have "h ! 1 = 0" by (rule u8_le3_and3)
      then have "?h ! 1 = of_nat L" using l3 by simp
      moreover have "?h ! 2 = 0" using l3 c'(3) by simp
      ultimately show ?thesis
        unfolding match_header_def using hd f l u8_of_nat_le3 [OF L] c'(1) by simp
    next
      case False
      then show ?thesis unfolding match_header_def using hd f l by simp
    qed
  qed
qed

lemma literal_head_ok:
  assumes "3 < L" and "L \<le> 273"
  shows "literal_header (if L \<le> 18 then [of_nat (L - 3)] else [0, of_nat (L - 18)]) L"
    and "hd (if L \<le> 18 then [of_nat (L - 3)] else [0, of_nat (L - 18) :: u8]) < 0x10"
proof -
  have "literal_header (if L \<le> 18 then [of_nat (L - 3)] else [0, of_nat (L - 18)]) L
      \<and> hd (if L \<le> 18 then [of_nat (L - 3)] else [0, of_nat (L - 18) :: u8]) < 0x10"
  proof (cases "L \<le> 18")
    case True
    define f :: u8 where "f = of_nat (L - 3)"
    have u: "unat f = L - 3" using True by (simp add: f_def unat_of_nat)
    then have "f < 0x10" using True by (simp add: word_less_nat_alt)
    moreover from u assms(1) have "f \<noteq> 0" by auto
    ultimately show ?thesis using True u assms(1) by (simp add: literal_header_def f_def)
  next
    case False
    have "unat (of_nat (L - 18) :: u8) = L - 18" using assms(2) by (simp add: unat_of_nat)
    then show ?thesis using False by (simp add: literal_header_def)
  qed
  then show "literal_header (if L \<le> 18 then [of_nat (L - 3)] else [0, of_nat (L - 18)]) L"
    and "hd (if L \<le> 18 then [of_nat (L - 3)] else [0, of_nat (L - 18) :: u8]) < 0x10"
    by simp_all
qed

lemma src_range_length: "src_range src p n = Inr bytes \<Longrightarrow> length bytes = n"
  by (auto simp: src_range_def split: if_splits)

lemma enc_inv_literal:
  assumes i: "enc_inv (buffer dest) lf" and p: "pos dest = length (buffer dest)"
    and e: "encode_literal_packet dest src sp se lf L = Inr (d', sp', lf')" and L: "L \<le> 273"
  shows "enc_inv (buffer d') lf'"
proof -
  define dest1 where "dest1 = (if lf < 0x10 then push_dummy dest else dest)"
  define lf1 :: "32 word" where "lf1 = (if lf < 0x10 then 0x11 else lf)"
  have i1: "enc_inv (buffer dest1) lf1" and p1: "pos dest1 = length (buffer dest1)"
    and n1: "\<not> lf1 < 0x10"
    using i p enc_inv_dummy [OF i] by (auto simp: dest1_def lf1_def)
  have e1: "encode_literal_packet dest src sp se lf L =
     (if L \<le> 3
      then (let dest2 = (if lf1 = DO_NOT_INJECT_FLAG then push_dummy dest1 else dest1)
            in (case rd (buffer dest2) (size_t_sub (pos dest2) 2) of
                  Inl e \<Rightarrow> Inl e
                | Inr b \<Rightarrow>
                    (case src_range src sp L of
                       Inl e \<Rightarrow> Inl e
                     | Inr bytes \<Rightarrow>
                         Inr (dest2\<lparr>buffer :=
                                (buffer dest2)[pos dest2 - 2 := b OR of_nat L] @ bytes\<rparr>,
                              sp + L, DO_NOT_INJECT_FLAG))))
      else (let head = (if L \<le> 18 then [of_nat (L - 3)] else [0, of_nat (L - 18)])
            in (case src_range src sp L of
                  Inl e \<Rightarrow> Inl e
                | Inr bytes \<Rightarrow>
                    (let buf = buffer dest1 @ head @ bytes
                     in (case rd buf (pos dest1) of
                           Inl e \<Rightarrow> Inl e
                         | Inr b \<Rightarrow> Inr (dest1\<lparr>buffer := buf\<rparr>, sp + L, char_to_u32 b))))))"
    unfolding encode_literal_packet_def dest1_def lf1_def Let_def
    by (cases "lf < 0x10") (simp_all add: DO_NOT_INJECT_FLAG_def split: sum.splits)
  show ?thesis
  proof (cases "L \<le> 3")
    case True
    define dest2 where "dest2 = (if lf1 = DO_NOT_INJECT_FLAG then push_dummy dest1 else dest1)"
    define lf2 :: "32 word" where "lf2 = (if lf1 = DO_NOT_INJECT_FLAG then 0x11 else lf1)"
    have i2: "enc_inv (buffer dest2) lf2" and p2: "pos dest2 = length (buffer dest2)"
      and n2: "\<not> lf2 < 0x10" "lf2 \<noteq> DO_NOT_INJECT_FLAG"
      using i1 p1 n1 enc_inv_dummy [OF i1]
      by (auto simp: dest2_def lf2_def DO_NOT_INJECT_FLAG_def)
    from i2 n2 obtain ps h where
      b2: "buffer dest2 = concat (map render ps) @ h" and
      w2: "\<forall>p\<in>set ps. wf_packet p" and
      m2: "match_header h" and z2: "h ! (length h - 2) AND 3 = 0"
      by (auto simp: enc_inv_def unat_eq_0)
    from m2 have ge: "2 \<le> length h" using header_size_ge [of "hd h"] by (simp add: match_header_def)
    from e True obtain b bytes where
      b: "rd (buffer dest2) (size_t_sub (pos dest2) 2) = Inr b" and
      r: "src_range src sp L = Inr bytes" and
      d: "buffer d' = (buffer dest2)[pos dest2 - 2 := b OR of_nat L] @ bytes" and
      lf': "lf' = DO_NOT_INJECT_FLAG"
      unfolding e1 dest2_def [symmetric] Let_def by (auto split: sum.splits)
    have ix: "pos dest2 - 2 = length (concat (map render ps)) + (length h - 2)"
      unfolding p2 b2 using ge by simp
    have "size_t_sub (pos dest2) 2 = pos dest2 - 2"
      unfolding p2 b2 using ge by (simp add: size_t_sub_def)
    with b have "b = buffer dest2 ! (pos dest2 - 2)" by (simp add: rd_def split: if_splits)
    then have bh: "b = h ! (length h - 2)" unfolding ix b2 by simp
    let ?h = "h[length h - 2 := h ! (length h - 2) OR of_nat L]"
    have d': "buffer d' = concat (map render ps) @ ?h @ bytes"
      unfolding d ix b2 bh by (simp add: list_update_append)
    note ih = inject_header [OF m2 z2 True]
    have w: "wf_packet (NonLiteral ?h bytes)"
      using ih src_range_length [OF r] by simp
    show ?thesis
    proof (rule enc_invI [where ps = "ps @ [NonLiteral ?h bytes]"])
      show "buffer d' = concat (map render (ps @ [NonLiteral ?h bytes]))"
        unfolding d' by simp
      show "\<forall>p\<in>set (ps @ [NonLiteral ?h bytes]). wf_packet p" using w2 w by auto
      show "\<not> lf' < 0x10 \<and> lf' \<noteq> DO_NOT_INJECT_FLAG
          \<longrightarrow> (\<exists>ps' h'. ps @ [NonLiteral ?h bytes] = ps' @ [NonLiteral h' []])"
        using lf' by simp
    qed
  next
    case False
    define head :: "u8 list" where
      "head = (if L \<le> 18 then [of_nat (L - 3)] else [0, of_nat (L - 18)])"
    from False have L3: "3 < L" by simp
    note ok = literal_head_ok [OF L3 L, folded head_def]
    from ok(1) have hne: "head \<noteq> []" by (auto simp: literal_header_def)
    from e False obtain bytes where
      r: "src_range src sp L = Inr bytes" and
      d: "buffer d' = buffer dest1 @ head @ bytes" and
      lf': "lf' = char_to_u32 ((buffer dest1 @ head @ bytes) ! pos dest1)"
      unfolding e1 head_def [symmetric] Let_def
      by (auto simp: rd_def split: sum.splits if_splits)
    have "(buffer dest1 @ head @ bytes) ! pos dest1 = hd head"
      unfolding p1 using hne by (simp add: nth_append hd_conv_nth)
    with lf' ok(2) have lt: "lf' < 0x10" by (simp add: char_to_u32_literal)
    from i1 obtain ps where
      ps: "buffer dest1 = concat (map render ps)" "\<forall>p\<in>set ps. wf_packet p"
      by (auto simp: enc_inv_def)
    have w: "wf_packet (Literal head bytes)" using ok(1) src_range_length [OF r] by simp
    show ?thesis
    proof (rule enc_invI [where ps = "ps @ [Literal head bytes]"])
      show "buffer d' = concat (map render (ps @ [Literal head bytes]))"
        unfolding d ps(1) by simp
      show "\<forall>p\<in>set (ps @ [Literal head bytes]). wf_packet p" using ps(2) w by auto
      show "\<not> lf' < 0x10 \<and> lf' \<noteq> DO_NOT_INJECT_FLAG
          \<longrightarrow> (\<exists>ps' h'. ps @ [Literal head bytes] = ps' @ [NonLiteral h' []])"
        using lt by simp
    qed
  qed
qed


lemma enc_inv_step:
  assumes st: "encode_step src src_end (d, sp, lf) = Inr (d', sp', lf')" and lt: "sp < src_end"
    and i: "enc_inv (buffer d) lf" and p: "pos d = length (buffer d)"
  shows "enc_inv (buffer d') lf'" and "pos d' = length (buffer d')"
proof -
  from st obtain m where
    fm: "(if sp + MAX_MATCH_SIZE \<ge> src_end then find_match True src sp src_end
          else find_match False src sp src_end) = Inr m"
    by (auto simp: encode_step_def split: sum.splits)
  then obtain eob where f: "find_match eob src sp src_end = Inr m" by (auto split: if_splits)
  note pr = find_match_progress [OF f lt]
  note bd = find_match_bounds [OF f]
  from st fm obtain d2 where
    en: "(if literal_size m = 0
          then encode_match_packet d src sp src_end lf (match_offset m) (match_size m)
          else (case encode_literal_packet d src sp src_end lf (literal_size m) of
                  Inl e \<Rightarrow> Inl e
                | Inr (d1, src_pos1, last_flag1) \<Rightarrow>
                    if match_size m > 0
                    then encode_match_packet (d1\<lparr>pos := length (buffer d1)\<rparr>) src
                           src_pos1 src_end last_flag1 (match_offset m) (match_size m)
                    else Inr (d1, src_pos1, last_flag1))) = Inr (d2, sp', lf')"
    and d': "d' = d2\<lparr>pos := length (buffer d2)\<rparr>"
    by (auto simp: encode_step_def split: sum.splits)
  show "pos d' = length (buffer d')" unfolding d' by simp
  have "enc_inv (buffer d2) lf'"
  proof (cases "literal_size m = 0")
    case True
    with pr have "3 \<le> match_size m" by simp
    moreover from en True
    have "encode_match_packet d src sp src_end lf (match_offset m) (match_size m)
        = Inr (d2, sp', lf')" by simp
    ultimately show ?thesis using enc_inv_match [OF i p] by blast
  next
    case False
    with en obtain d1 sp1 lf1 where
      l: "encode_literal_packet d src sp src_end lf (literal_size m) = Inr (d1, sp1, lf1)" and
      r: "(if match_size m > 0
           then encode_match_packet (d1\<lparr>pos := length (buffer d1)\<rparr>) src
                  sp1 src_end lf1 (match_offset m) (match_size m)
           else Inr (d1, sp1, lf1)) = Inr (d2, sp', lf')"
      by (auto split: sum.splits)
    from enc_inv_literal [OF i p l bd(1)] have i1: "enc_inv (buffer d1) lf1" .
    show ?thesis
    proof (cases "match_size m > 0")
      case True
      with bd(2) have m3: "3 \<le> match_size m" by simp
      from r True
      have e: "encode_match_packet (d1\<lparr>pos := length (buffer d1)\<rparr>) src
                  sp1 src_end lf1 (match_offset m) (match_size m) = Inr (d2, sp', lf')" by simp
      have i1': "enc_inv (buffer (d1\<lparr>pos := length (buffer d1)\<rparr>)) lf1" using i1 by simp
      have p1': "pos (d1\<lparr>pos := length (buffer d1)\<rparr>)
          = length (buffer (d1\<lparr>pos := length (buffer d1)\<rparr>))" by simp
      from enc_inv_match [OF i1' p1' e m3] show ?thesis .
    next
      case False
      with r i1 show ?thesis by simp
    qed
  qed
  then show "enc_inv (buffer d') lf'" unfolding d' by simp
qed

text \<open>A block is well formed when it is a sequence of whole packets.\<close>

definition wf_block :: "u8 list \<Rightarrow> bool" where
  "wf_block b \<longleftrightarrow> (\<exists>ps. b = concat (map render ps) \<and> (\<forall>p\<in>set ps. wf_packet p))"

lemma intermediate_loop_wf:
  "intermediate_loop src src_end st = Inr b \<Longrightarrow> enc_inv (buffer (fst st)) (snd (snd st))
     \<Longrightarrow> pos (fst st) = length (buffer (fst st)) \<Longrightarrow> wf_block b"
proof (induction src src_end st rule: intermediate_loop.induct)
  case (1 src src_end st)
  show ?case
  proof (cases "fst (snd st) < src_end")
    case True
    with "1.prems"(1) obtain st' where
      s: "encode_step src src_end st = Inr st'" and
      r: "intermediate_loop src src_end st' = Inr b"
      by (subst (asm) intermediate_loop.simps) (auto split: sum.splits)
    from s have "encode_step src src_end (fst st, fst (snd st), snd (snd st))
        = Inr (fst st', fst (snd st'), snd (snd st'))" by simp
    from enc_inv_step [OF this True "1.prems"(2,3)]
    show ?thesis by (rule "1.IH" [OF True s r])
  next
    case False
    with "1.prems"(1) have "b = buffer (fst st)"
      by (subst (asm) intermediate_loop.simps) simp
    with "1.prems"(2) show ?thesis by (auto simp: enc_inv_def wf_block_def)
  qed
qed

lemma compress_wad_intermediate_wf:
  assumes "compress_wad_intermediate src p e = Inr b"
  shows "wf_block b"
proof -
  have i: "enc_inv [] DO_NOT_INJECT_FLAG"
    by (rule enc_invI [where ps = "[]"]) simp_all
  from assms have l: "intermediate_loop src e (empty_stream, p, DO_NOT_INJECT_FLAG) = Inr b"
    by (simp add: compress_wad_intermediate_def)
  show ?thesis
    by (rule intermediate_loop_wf [OF l]) (simp_all add: empty_stream_def i)
qed

lemma collect_all:
  "collect rs = Inr xs \<Longrightarrow> (\<And>r x. r \<in> set rs \<Longrightarrow> r = Inr x \<Longrightarrow> P x) \<Longrightarrow> x \<in> set xs \<Longrightarrow> P x"
proof (induction rs arbitrary: xs)
  case Nil
  then show ?case by simp
next
  case (Cons r rs)
  from Cons.prems(1) obtain y ys where
    r: "r = Inr y" and c: "collect rs = Inr ys" and xs: "xs = y # ys"
    by (auto split: sum.splits)
  show ?case
  proof (cases "x = y")
    case True
    with r Cons.prems(2) [of r y] show ?thesis by simp
  next
    case False
    with xs Cons.prems(3) have "x \<in> set ys" by simp
    with Cons.IH [OF c] Cons.prems(2) show ?thesis by simp
  qed
qed

lemma compress_blocks_wf:
  assumes "compress_blocks src t = Inr bs" and "b \<in> set bs"
  shows "wf_block b"
proof (cases "t = 1")
  case True
  with assms(1) have c: "collect [compress_wad_intermediate src 0 (length src)] = Inr bs"
    by (simp only: compress_blocks_def refl if_True)
  show ?thesis
    by (rule collect_all [OF c _ assms(2)]) (auto intro: compress_wad_intermediate_wf)
next
  case False
  define bsz where "bsz = (length src + (0x100 * t - length src mod (0x100 * t))) div t"
  from assms(1) False
  have c: "collect (map (\<lambda>i. compress_wad_intermediate src (bsz * i)
                            (min (length src) (bsz * (i + 1)))) [0..<t]) = Inr bs"
    by (simp add: compress_blocks_def Let_def bsz_def split: if_splits)
  show ?thesis
    by (rule collect_all [OF c _ assms(2)]) (auto intro: compress_wad_intermediate_wf)
qed


text \<open>The two alignment loops stop at the first aligned position.\<close>

lemma skip_pad_least:
  assumes "p \<le> q" and "q mod 0x1000 = 0x10"
    and "\<forall>j. p \<le> j \<and> j < q \<longrightarrow> j mod 0x1000 \<noteq> 0x10"
  shows "skip_pad p = q"
  using assms(1,3)
proof (induction "q - p" arbitrary: p)
  case 0
  then have "p = q" by simp
  with assms(2) show ?case by (subst skip_pad.simps) simp
next
  case (Suc n)
  then have lt: "p < q" by simp
  with Suc.prems have na: "p mod 0x1000 \<noteq> 0x10" by simp
  have "skip_pad (p + 1) = q"
    using Suc.hyps(2) Suc.prems lt by (intro Suc.hyps(1)) auto
  with na show ?case by (subst skip_pad.simps) simp
qed

lemma pad_fill_least:
  assumes "pos d = length (buffer d)" and "pos d \<le> q" and "q mod 0x2000 = 0x10"
    and "\<forall>j. pos d \<le> j \<and> j < q \<longrightarrow> j mod 0x2000 \<noteq> 0x10"
  shows "pad_fill d = d\<lparr>buffer := buffer d @ replicate (q - pos d) 0xee, pos := q\<rparr>"
  using assms(1,2,4)
proof (induction "q - pos d" arbitrary: d)
  case 0
  then have "pos d = q" by simp
  with assms(3) show ?case by (subst pad_fill.simps) simp
next
  case (Suc n)
  then have lt: "pos d < q" by simp
  with Suc.prems have na: "pos d mod 0x2000 \<noteq> 0x10" by simp
  define d1 where "d1 = d\<lparr>buffer := buffer d @ [0xee], pos := pos d + 1\<rparr>"
  have w: "write8 d 0xee = d1" unfolding d1_def using Suc.prems(1) by (rule write8_at_end)
  have "pad_fill d1 = d1\<lparr>buffer := buffer d1 @ replicate (q - pos d1) 0xee, pos := q\<rparr>"
    using Suc.hyps(2) Suc.prems lt by (intro Suc.hyps(1)) (auto simp: d1_def)
  moreover have "q - pos d = Suc (q - pos d1)" using lt by (simp add: d1_def)
  ultimately have "pad_fill d1 = d\<lparr>buffer := buffer d @ replicate (q - pos d) 0xee, pos := q\<rparr>"
    by (simp add: d1_def)
  with na w show ?case by (subst pad_fill.simps) simp
qed

text \<open>
  Where a pad packet written at \<open>P\<close> ends: the position the filler reaches is the one the
  decoder skips to.
\<close>

lemma pad_target:
  fixes P n :: nat
  assumes r1: "(P + 0x1ff0) mod 0x2000 \<le> 0x2000 - 3"
    and r2: "(P + 0x1ff0) mod 0x2000 + n > 0x2000 - 3" and n: "n \<le> 278"
  defines "Q \<equiv> P + (0x2000 - (P + 0x1ff0) mod 0x2000)"
  shows "P + 3 \<le> Q" and "Q mod 0x2000 = 0x10"
    and "\<forall>j. P + 3 \<le> j \<and> j < Q \<longrightarrow> j mod 0x1000 \<noteq> 0x10"
proof -
  define a where "a = (P + 0x1ff0) div 0x2000"
  define r where "r = (P + 0x1ff0) mod 0x2000"
  have e: "P + 0x1ff0 = 0x2000 * a + r" by (simp add: a_def r_def)
  have r: "r \<le> 8189" "7911 < r" using r1 r2 n by (simp_all add: r_def)
  have Q: "Q = 0x2000 * a + 0x10" unfolding Q_def r_def [symmetric] using e r by simp
  show "P + 3 \<le> Q" unfolding Q using e r by simp
  show "Q mod 0x2000 = 0x10" unfolding Q by simp
  show "\<forall>j. P + 3 \<le> j \<and> j < Q \<longrightarrow> j mod 0x1000 \<noteq> 0x10"
  proof (intro allI impI notI)
    fix j :: nat
    assume j: "P + 3 \<le> j \<and> j < Q" and m: "j mod 0x1000 = 0x10"
    define c where "c = j div 0x1000"
    have "0x1000 * (j div 0x1000) + j mod 0x1000 = j" by (rule mult_div_mod_eq)
    with m have jc: "j = 0x1000 * c + 0x10" by (simp add: c_def)
    from j Q jc have "0x1000 * c < 0x2000 * a" by simp
    then have "c < 2 * a" by simp
    then have "c + 1 \<le> 2 * a" by simp
    then have "0x1000 * (c + 1) \<le> 0x1000 * (2 * a)" by (rule mult_le_mono2)
    then have "0x1000 * c + 0x1000 \<le> 0x2000 * a" by simp
    moreover from j jc e r have "0x2000 * a + 7911 < 0x1000 * c + 0x10 + 0x1ff0 - 3" by simp
    ultimately show False by simp
  qed
qed

lemma pad_target_2000:
  assumes "\<forall>j. p \<le> j \<and> j < q \<longrightarrow> j mod 0x1000 \<noteq> (0x10::nat)"
  shows "\<forall>j. p \<le> j \<and> j < q \<longrightarrow> j mod 0x2000 \<noteq> (0x10::nat)"
proof (intro allI impI notI)
  fix j :: nat
  assume j: "p \<le> j \<and> j < q" and m: "j mod 0x2000 = 0x10"
  have "j mod 0x1000 = (j mod 0x2000) mod 0x1000"
    by (simp add: mod_mod_cancel)
  with m have "j mod 0x1000 = 0x10" by simp
  with assms j show False by simp
qed

text \<open>What holds of the destination between two packets of the stitcher.\<close>

definition stitch_inv :: "array_stream \<Rightarrow> bool" where
  "stitch_inv d \<longleftrightarrow>
     pos d = length (buffer d) \<and> 16 \<le> pos d \<and> walk (buffer d) 16 (pos d)
     \<and> (pos d + 0x1ff0) mod 0x2000 \<le> 0x2000 - 3"

lemma walk_render:
  assumes "walk out s (length out)" and "wf_packet p"
  shows "walk (out @ render p) s (length out + length (render p))"
proof -
  from assms(1) have "walk (out @ render p) s (length out)" by (rule walk_append)
  moreover from packet_end_render [OF assms(2), of out "[]"]
  have "family_c_ok (out @ render p) (length out)"
    and "packet_end (out @ render p) (length out) = Some (length out + length (render p))"
    by simp_all
  ultimately show ?thesis by (rule walk.walk_step)
qed

lemma is_pad_packet_pad: "is_pad_packet [0x12, 0, 0]"
  by (simp add: is_pad_packet_def lookback_delta_c_def)

lemma walk_pad:
  assumes w: "walk out s (length out)" and q: "skip_pad (length out + 3) = length out + 3 + k"
  shows "walk (out @ [0x12, 0, 0] @ replicate k 0xee) s (length out + 3 + k)"
proof -
  let ?o = "out @ [0x12, 0, 0] @ replicate k 0xee"
  from w have "walk ?o s (length out)" by (rule walk_append)
  moreover have f: "?o ! length out = 0x12" by (simp add: nth_append)
  have f1: "?o ! (length out + 1) = 0" "?o ! (length out + 2) = 0"
    by (simp_all add: nth_append)
  have "family_c_ok ?o (length out)"
    unfolding family_c_ok_def f Let_def using f1 by simp
  moreover have "packet_end ?o (length out) = Some (length out + 3 + k)"
  proof -
    have h: "header_size 0x12 = 3" by (simp add: header_size_def)
    have t: "take 3 (drop (length out) ?o) = [0x12, 0, 0]" by simp
    have "match_end ?o (length out) = Some (skip_pad (length out + 3))"
      unfolding match_end_def f h Let_def t using is_pad_packet_pad by simp
    then show ?thesis unfolding packet_end_def f using q by simp
  qed
  ultimately show ?thesis by (rule walk.walk_step)
qed


lemma write8_thrice:
  assumes "pos d = length (buffer d)"
  shows "write8 (write8 (write8 d a) b) c = d\<lparr>buffer := buffer d @ [a, b, c], pos := pos d + 3\<rparr>"
proof -
  have 1: "write8 d a = d\<lparr>buffer := buffer d @ [a], pos := pos d + 1\<rparr>"
    using assms by (rule write8_at_end)
  have 2: "write8 (d\<lparr>buffer := buffer d @ [a], pos := pos d + 1\<rparr>) b
      = d\<lparr>buffer := buffer d @ [a, b], pos := pos d + 2\<rparr>"
    using assms by (subst write8_at_end) simp_all
  have 3: "write8 (d\<lparr>buffer := buffer d @ [a, b], pos := pos d + 2\<rparr>) c
      = d\<lparr>buffer := buffer d @ [a, b, c], pos := pos d + 3\<rparr>"
    using assms by (subst write8_at_end) simp_all
  show ?thesis unfolding 1 2 3 ..
qed

lemma stitch_pad:
  assumes i: "stitch_inv d" and c: "(pos d + 0x1ff0) mod 0x2000 + n > 0x2000 - 3"
    and n: "n \<le> 278"
  defines "d1 \<equiv> pad_fill (write8 (write8 (write8 d 0x12) 0) 0)"
  shows "pos d1 = length (buffer d1)" and "16 \<le> pos d1" and "walk (buffer d1) 16 (pos d1)"
    and "(pos d1 + 0x1ff0) mod 0x2000 = 0"
proof -
  from i have e: "pos d = length (buffer d)" and ge: "16 \<le> pos d"
    and w: "walk (buffer d) 16 (length (buffer d))"
    and r1: "(pos d + 0x1ff0) mod 0x2000 \<le> 0x2000 - 3"
    by (auto simp: stitch_inv_def)
  define Q where "Q = pos d + (0x2000 - (pos d + 0x1ff0) mod 0x2000)"
  note t = pad_target [OF r1 c n, folded Q_def]
  define dw where "dw = d\<lparr>buffer := buffer d @ [0x12, 0, 0], pos := pos d + 3\<rparr>"
  have dw: "write8 (write8 (write8 d 0x12) 0) 0 = dw"
    unfolding dw_def using e by (rule write8_thrice)
  have pf: "pad_fill dw = dw\<lparr>buffer := buffer dw @ replicate (Q - pos dw) 0xee, pos := Q\<rparr>"
  proof (rule pad_fill_least)
    show "pos dw = length (buffer dw)" using e by (simp add: dw_def)
    show "pos dw \<le> Q" using t(1) by (simp add: dw_def)
    show "Q mod 0x2000 = 0x10" by (rule t(2))
    show "\<forall>j. pos dw \<le> j \<and> j < Q \<longrightarrow> j mod 0x2000 \<noteq> 0x10"
      using pad_target_2000 [OF t(3)] by (simp add: dw_def)
  qed
  have "Q mod 0x1000 = (Q mod 0x2000) mod 0x1000" by (simp add: mod_mod_cancel)
  then have qa: "Q mod 0x1000 = 0x10" unfolding t(2) by simp
  have sk: "skip_pad (pos d + 3) = Q" using t(1) qa t(3) by (rule skip_pad_least)
  have b1: "buffer d1 = buffer d @ [0x12, 0, 0] @ replicate (Q - (pos d + 3)) 0xee"
    and p1: "pos d1 = Q"
    unfolding d1_def dw pf by (simp_all add: dw_def)
  show "pos d1 = length (buffer d1)" unfolding b1 p1 using t(1) e by simp
  show "16 \<le> pos d1" unfolding p1 using t(1) ge by simp
  have "skip_pad (length (buffer d) + 3) = length (buffer d) + 3 + (Q - (pos d + 3))"
    using sk t(1) e by simp
  from walk_pad [OF w this] show "walk (buffer d1) 16 (pos d1)"
    unfolding b1 p1 using t(1) e by simp
  have "(Q + 0x1ff0) mod 0x2000 = (Q mod 0x2000 + 0x1ff0) mod 0x2000"
    by (simp only: mod_add_left_eq)
  then show "(pos d1 + 0x1ff0) mod 0x2000 = 0" unfolding p1 t(2) by simp
qed

lemma stitch_packet_inv:
  assumes s: "stitch_packet i dest im = Inr (dest', im')" and inv: "stitch_inv dest"
    and b: "drop (pos im) (buffer im) = render p @ rest" and w: "wf_packet p"
  shows "stitch_inv dest'" and "im' = im\<lparr>pos := pos im + length (render p)\<rparr>"
proof -
  from s obtain n bytes d2 where
    g: "get_wad_packet_size (drop (pos im) (buffer im)) (length (buffer im) - pos im) = Inr n" and
    r: "src_range (buffer im) (pos im) n = Inr bytes" and
    d: "dest' = d2\<lparr>buffer := buffer d2 @ bytes, pos := pos d2 + n\<rparr>" and
    i': "im' = im\<lparr>pos := pos im + n\<rparr>" and
    e: "d2 = (let d1 = (if ((pos dest + 0x1ff0) mod 0x2000) + (if i \<noteq> 0 \<and> pos im = 0 then n + 3 else n) > 0x2000 - 3
                        then pad_fill (write8 (write8 (write8 dest 0x12) 0x0) 0x0)
                        else dest)
              in if i \<noteq> 0 \<and> pos im = 0 then write8 (write8 (write8 d1 0x11) 0) 0 else d1)"
    by (auto simp: stitch_packet_def Let_def split: sum.splits)
  from g have n: "n = length (render p)"
    unfolding b by (rule get_wad_packet_size_render [OF w])
  from g have n275: "n \<le> 275" by (rule get_wad_packet_size_le)
  from r have "bytes = take n (drop (pos im) (buffer im))"
    by (auto simp: src_range_def split: if_splits)
  then have bytes: "bytes = render p" unfolding b n by simp
  show "im' = im\<lparr>pos := pos im + length (render p)\<rparr>" using i' n by simp
  define ins where "ins = (if i \<noteq> 0 \<and> pos im = 0 then n + 3 else n)"
  have ins: "ins \<le> 278" using n275 by (simp add: ins_def)
  define d1 where "d1 = (if ((pos dest + 0x1ff0) mod 0x2000) + ins > 0x2000 - 3
                        then pad_fill (write8 (write8 (write8 dest 0x12) 0x0) 0x0)
                        else dest)"
  have a1: "pos d1 = length (buffer d1) \<and> 16 \<le> pos d1 \<and> walk (buffer d1) 16 (pos d1)
      \<and> (pos d1 + 0x1ff0) mod 0x2000 + ins \<le> 0x2000 - 3"
  proof (cases "((pos dest + 0x1ff0) mod 0x2000) + ins > 0x2000 - 3")
    case True
    then have "d1 = pad_fill (write8 (write8 (write8 dest 0x12) 0x0) 0x0)" by (simp add: d1_def)
    with stitch_pad [OF inv True ins] ins show ?thesis by simp
  next
    case False
    then have "d1 = dest" by (simp add: d1_def)
    with inv False show ?thesis by (auto simp: stitch_inv_def)
  qed
  from a1 have e1: "pos d1 = length (buffer d1)" and g1: "16 \<le> pos d1"
    and w1: "walk (buffer d1) 16 (length (buffer d1))"
    and al1: "(pos d1 + 0x1ff0) mod 0x2000 + ins \<le> 0x2000 - 3"
    by auto
  define dm :: "u8 list" where "dm = (if i \<noteq> 0 \<and> pos im = 0 then [0x11, 0, 0] else [])"
  have d2: "buffer d2 = buffer d1 @ dm" "pos d2 = pos d1 + length dm"
    unfolding e d1_def [symmetric] ins_def [symmetric] Let_def dm_def
    using e1 by (simp_all add: write8_thrice)
  have w2: "walk (buffer d2) 16 (length (buffer d2))"
  proof (cases "i \<noteq> 0 \<and> pos im = 0")
    case True
    then have "dm = [0x11, 0, 0]" unfolding dm_def by simp
    with walk_render [OF w1 wf_dummy] show ?thesis by (simp add: d2)
  next
    case False
    then have "dm = []" unfolding dm_def by auto
    with w1 show ?thesis by (simp add: d2)
  qed
  have b': "buffer dest' = buffer d2 @ render p" "pos dest' = pos d2 + length (render p)"
    unfolding d bytes n by simp_all
  have li: "length dm + n = ins" by (simp add: dm_def ins_def)
  have pe: "pos dest' = pos d1 + ins" unfolding b' d2 using li n by simp
  have "pos dest' + 0x1ff0 = (pos d1 + 0x1ff0) + ins" unfolding pe by simp
  then have "(pos dest' + 0x1ff0) mod 0x2000 = ((pos d1 + 0x1ff0) mod 0x2000 + ins) mod 0x2000"
    by (simp only: mod_add_left_eq)
  also have "\<dots> = (pos d1 + 0x1ff0) mod 0x2000 + ins" using al1 by simp
  finally have al: "(pos dest' + 0x1ff0) mod 0x2000 \<le> 0x2000 - 3" using al1 by simp
  have pl: "pos dest' = length (buffer dest')" unfolding b' d2 using e1 by simp
  have "walk (buffer dest') 16 (length (buffer dest'))"
    using walk_render [OF w2 w] by (simp add: b')
  then have "walk (buffer dest') 16 (pos dest')" unfolding pl .
  moreover have "16 \<le> pos dest'" unfolding pe using g1 by simp
  ultimately show "stitch_inv dest'" using al pl by (simp add: stitch_inv_def)
qed


lemma stitch_block_inv:
  "stitch_block i dest \<lparr>buffer = concat (map render (pre @ ps)),
       pos = length (concat (map render pre))\<rparr> = Inr dest'
   \<Longrightarrow> stitch_inv dest \<Longrightarrow> \<forall>p\<in>set ps. wf_packet p \<Longrightarrow> stitch_inv dest'"
proof (induction ps arbitrary: pre dest)
  case Nil
  then show ?case by (subst (asm) stitch_block.simps) simp
next
  case (Cons p ps)
  let ?im = "\<lparr>buffer = concat (map render (pre @ p # ps)),
    pos = length (concat (map render pre))\<rparr>"
  have w: "wf_packet p" using Cons.prems(3) by simp
  have ne: "render p \<noteq> []" by (rule render_nonempty [OF w])
  then have lt: "pos ?im < length (buffer ?im)" by simp
  with Cons.prems(1) obtain d1 im1 where
    sp: "stitch_packet i dest ?im = Inr (d1, im1)" and
    r: "stitch_block i d1 im1 = Inr dest'"
    by (subst (asm) stitch_block.simps) (auto split: sum.splits)
  have b: "drop (pos ?im) (buffer ?im) = render p @ concat (map render ps)" by simp
  note sp' = stitch_packet_inv [OF sp Cons.prems(2) b w]
  have "im1 = \<lparr>buffer = concat (map render ((pre @ [p]) @ ps)),
      pos = length (concat (map render (pre @ [p])))\<rparr>"
    using sp'(2) by simp
  with r have "stitch_block i d1 \<lparr>buffer = concat (map render ((pre @ [p]) @ ps)),
      pos = length (concat (map render (pre @ [p])))\<rparr> = Inr dest'" by simp
  from Cons.IH [OF this sp'(1)] Cons.prems(3) show ?case by simp
qed

lemma stitch_all_inv:
  "stitch_all dest i bs = Inr dest' \<Longrightarrow> stitch_inv dest \<Longrightarrow> \<forall>b\<in>set bs. wf_block b
   \<Longrightarrow> stitch_inv dest'"
proof (induction bs arbitrary: dest i)
  case Nil
  then show ?case by simp
next
  case (Cons b bs)
  from Cons.prems(1) obtain d1 where
    s: "stitch_block i dest \<lparr>buffer = b, pos = 0\<rparr> = Inr d1" and
    r: "stitch_all d1 (i + 1) bs = Inr dest'"
    by (auto split: sum.splits)
  from Cons.prems(3) obtain ps where
    ps: "b = concat (map render ps)" "\<forall>p\<in>set ps. wf_packet p"
    by (auto simp: wf_block_def)
  from s have "stitch_block i dest \<lparr>buffer = concat (map render ([] @ ps)),
      pos = length (concat (map render []))\<rparr> = Inr d1"
    by (simp add: ps(1))
  from stitch_block_inv [OF this Cons.prems(2) ps(2)] have "stitch_inv d1" .
  from Cons.IH [OF r this] Cons.prems(3) show ?case by simp
qed

lemma write_u32_buffer:
  assumes "7 \<le> length (buffer d)"
  shows "buffer (write_u32 (seek d 3) v)
      = (buffer d)[3 := ucast v, 4 := ucast (drop_bit 8 v), 5 := ucast (drop_bit 16 v),
           6 := ucast (drop_bit 24 v)]"
  using assms by (simp add: write_u32_def seek_def write8_def Let_def)

lemma encode_match_packet_flag:
  assumes "encode_match_packet dest src sp se lf mo ms = Inr (d', sp', lf')"
  shows "0x20 \<le> buffer d' ! length (buffer dest)"
proof -
  from assms have b: "buffer d' = buffer dest @ match_head sp mo ms"
    by (auto simp: encode_match_packet_def match_head_def Let_def split: if_splits sum.splits)
  show ?thesis
  proof (cases "ms \<le> MAX_LITTLE_MATCH_SIZE \<and> size_t_sub sp mo \<le> MAX_LITTLE_MATCH_LOOKBACK")
    case True
    with assms have "3 \<le> ms"
      by (auto simp: encode_match_packet_def Let_def split: if_splits)
    from match_head_ok(1,2) [OF this, of sp mo] show ?thesis
      unfolding b by (simp add: match_header_def nth_append hd_conv_nth)
  next
    case False
    then have "match_head sp mo ms ! 0
        = (if ms > MAX_BIG_MATCH_SIZE then 0x20 else 0x20 OR of_nat (size_t_sub ms 2))"
      by (auto simp: match_head_def Let_def)
    moreover have "(0x20 :: u8) \<le> 0x20 OR of_nat (size_t_sub ms 2)" by (rule le_word_or2)
    ultimately have "0x20 \<le> match_head sp mo ms ! 0" by simp
    then show ?thesis unfolding b by (simp add: nth_append)
  qed
qed

text \<open>
  Claim C9. In the output of \<open>compress_wad\<close> (into a destination that starts out no longer
  than a header), the packets from offset 16 to the end are whole, and every packet among
  them with a flag byte in 0x10 to 0x1f is the dummy 0x11 with at most a tiny-literal
  length (0 to 3) in its second byte, or the pad 0x12 with a zero second byte, and its
  third byte is zero. And whenever \<open>encode_match_packet\<close> returns, the flag byte of the
  packet it has appended is 0x20 or more.
\<close>

theorem family_c_packets:
  "(compress_wad dest src thread_count = Inr out \<and> length (buffer dest) \<le> 0x10
      \<longrightarrow> check_packets (buffer out) 16)
   \<and> (encode_match_packet d s sp se lf mo ms = Inr (d', sp', lf')
      \<longrightarrow> 0x20 \<le> buffer d' ! length (buffer d))"
proof (intro conjI impI)
  assume "encode_match_packet d s sp se lf mo ms = Inr (d', sp', lf')"
  then show "0x20 \<le> buffer d' ! length (buffer d)" by (rule encode_match_packet_flag)
next
  assume a: "compress_wad dest src thread_count = Inr out \<and> length (buffer dest) \<le> 0x10"
  define dest1 where "dest1 = write_n (seek dest 0) wad_header_bytes"
  from a obtain ims dest2 where
    c: "compress_blocks (buffer src) (nat thread_count) = Inr ims" and
    s: "stitch_all dest1 0 ims = Inr dest2" and
    o: "out = write_u32 (seek dest2 3) (of_nat (pos dest2))"
    by (auto simp: compress_wad_def Let_def dest1_def split: if_splits sum.splits)
  have "pos dest1 = 0x10 \<and> length (buffer dest1) = 0x10"
    using write_n_length [of "seek dest 0" wad_header_bytes] a
    by (simp add: dest1_def seek_def wad_header_bytes_def)
  then have "stitch_inv dest1" by (simp add: stitch_inv_def walk.walk_refl)
  moreover have "\<forall>b\<in>set ims. wf_block b" using compress_blocks_wf [OF c] by blast
  ultimately have "stitch_inv dest2" by (rule stitch_all_inv [OF s])
  then have e: "pos dest2 = length (buffer dest2)" and g: "16 \<le> length (buffer dest2)"
    and w: "walk (buffer dest2) 16 (length (buffer dest2))"
    by (auto simp: stitch_inv_def)
  from g have "7 \<le> length (buffer dest2)" by simp
  note b = write_u32_buffer [OF this, of "of_nat (pos dest2)"]
  have "walk (buffer out) 16 (length (buffer dest2))"
    unfolding o b by (intro walk_update w) simp_all
  moreover have "length (buffer out) = length (buffer dest2)" unfolding o b by simp
  ultimately have "walk (buffer out) 16 (length (buffer out))" by simp
  moreover have "check_packets (buffer out) (length (buffer out))"
    by (subst check_packets.simps) simp
  ultimately show "check_packets (buffer out) 16" by (rule walk_check)
qed

theorem family_c_packets_witness:
  "length (buffer empty_stream) \<le> 0x10
   \<and> check_packets [0x57, 0x41, 0x44, 0x14, 0x00, 0x00, 0x00,
                      0x57, 0x52, 0x45, 0x4e, 0x43, 0x48, 0x30, 0x31, 0x30,
                      0x11, 0x01, 0x00, 0xAA] 16
   \<and> encode_match_packet empty_stream [] 1 2 DO_NOT_INJECT_FLAG 0 3
       = Inr (\<lparr>buffer = [0x40, 0], pos = 0\<rparr>, 4, 0x40)
   \<and> (0x20 :: u8) \<le> [0x40, 0] ! 0"
proof -
  have d: "length (buffer empty_stream) \<le> 0x10" by (simp add: empty_stream_def)
  have m: "encode_match_packet empty_stream [] 1 2 DO_NOT_INJECT_FLAG 0 3
      = Inr (\<lparr>buffer = [0x40, 0], pos = 0\<rparr>, 4, 0x40)"
    by (simp add: encode_match_packet_def consts_defs size_t_sub_def rd_def char_to_u32_def
        empty_stream_def Let_def)
  from family_c_packets [where dest = empty_stream and src = "\<lparr>buffer = [0xAA], pos = 0\<rparr>"
      and thread_count = 1 and d = empty_stream and s = "[]" and sp = 1 and se = 2
      and lf = DO_NOT_INJECT_FLAG and mo = 0 and ms = 3
      and out = "\<lparr>buffer = [0x57, 0x41, 0x44, 0x14, 0x00, 0x00, 0x00,
                      0x57, 0x52, 0x45, 0x4e, 0x43, 0x48, 0x30, 0x31, 0x30,
                      0x11, 0x01, 0x00, 0xAA], pos = 7\<rparr>"
      and d' = "\<lparr>buffer = [0x40, 0], pos = 0\<rparr>" and sp' = 4 and lf' = "0x40"]
    single_byte_compress d m
  show ?thesis by (simp add: empty_stream_def)
qed

end
